theory Spec2Isabelle
  imports Main "HOL-Library.Multiset"
begin

section \<open>The move picker of src/movepick.cpp\<close>

text \<open>
  A shallow embedding of \<^verbatim>\<open>src/movepick.cpp\<close>: the partial insertion sort, the
  three constructors of \<^verbatim>\<open>MovePicker\<close>, the scoring functions, \<^verbatim>\<open>select\<close> and
  \<^verbatim>\<open>next_move\<close>. The headers the file includes (\<^verbatim>\<open>movepick.h\<close>, \<^verbatim>\<open>position.h\<close>,
  \<^verbatim>\<open>types.h\<close>, \<^verbatim>\<open>movegen.h\<close>) are not among the sources, so what they declare is
  taken as a parameter: the position's queries are the fields of a record, and the
  tables, constants and free functions are the fields of a second record.
\<close>

subsection \<open>Moves, scored moves and arrays of them\<close>

text \<open>
  A \<^verbatim>\<open>Move\<close> is its raw data; \<^verbatim>\<open>Move::none()\<close> is the value that converts to
  \<^verbatim>\<open>false\<close>. An \<^verbatim>\<open>ExtMove\<close> is a move with an \<^verbatim>\<open>int value\<close>; the field is
  written \<open>value'\<close> here. Two \<^verbatim>\<open>ExtMove\<close>s compare by their values
  (\<^verbatim>\<open>operator<\<close>), and an \<^verbatim>\<open>ExtMove\<close> compares with a \<^verbatim>\<open>Move\<close> by its move.
  An array of \<^verbatim>\<open>ExtMove\<close> is a function from the index; a pointer into it is the index.
\<close>

type_synonym Move = nat
type_synonym Square = nat
type_synonym Piece = nat
type_synonym Color = nat
type_synonym Depth = int

definition Move_none :: Move where
  "Move_none = 0"

record ExtMove =
  move :: Move
  value' :: int

type_synonym ExtMoves = "nat \<Rightarrow> ExtMove"

subsection \<open>partial_insertion_sort\<close>

text \<open>
  The inner loop
  \<^verbatim>\<open>for (q = sortedEnd; q != begin && *(q - 1) < tmp; --q) *q = *(q - 1); *q = tmp;\<close>
  The pointer \<open>q\<close> starts at \<open>sortedEnd\<close>, which is never below \<open>begin\<close>, so it
  reaches index 0 only when \<open>begin\<close> is 0, where the loop stops.
\<close>

fun pis_shift :: "ExtMoves \<Rightarrow> nat \<Rightarrow> ExtMove \<Rightarrow> nat \<Rightarrow> ExtMoves" where
  "pis_shift a begin tmp 0 = a(0 := tmp)"
| "pis_shift a begin tmp (Suc q) =
     (if Suc q \<noteq> begin \<and> value' (a q) < value' tmp
      then pis_shift (a(Suc q := a q)) begin tmp q
      else a(Suc q := tmp))"

text \<open>The outer loop, from the state \<open>(sortedEnd, p)\<close>.\<close>

function pis_loop :: "ExtMoves \<Rightarrow> nat \<Rightarrow> nat \<Rightarrow> int \<Rightarrow> nat \<Rightarrow> nat \<Rightarrow> ExtMoves" where
  "pis_loop a begin end' limit sortedEnd p =
     (if p < end' then
        (if value' (a p) \<ge> limit then
           (let tmp = a p;
                sortedEnd1 = sortedEnd + 1;
                a1 = a(p := a sortedEnd1)
            in pis_loop (pis_shift a1 begin tmp sortedEnd1) begin end' limit sortedEnd1 (p + 1))
         else pis_loop a begin end' limit sortedEnd (p + 1))
      else a)"
  by pat_completeness auto
termination
  by (relation "measure (\<lambda>(a, b, e, l, s, p). e - p)") auto

declare pis_loop.simps [simp del]

definition partial_insertion_sort :: "ExtMoves \<Rightarrow> nat \<Rightarrow> nat \<Rightarrow> int \<Rightarrow> ExtMoves" where
  "partial_insertion_sort a begin end' limit = pis_loop a begin end' limit begin (begin + 1)"

text \<open>The elements of the range \<open>[b, e)\<close> of an array, in order.\<close>

definition range_of :: "ExtMoves \<Rightarrow> nat \<Rightarrow> nat \<Rightarrow> ExtMove list" where
  "range_of a b e = map a [b..<e]"

text \<open>Non-increasing and strictly decreasing order of the values.\<close>

definition descending :: "ExtMove list \<Rightarrow> bool" where
  "descending xs = sorted_wrt (\<lambda>x y. value' y \<le> value' x) xs"

definition strictly_descending :: "ExtMove list \<Rightarrow> bool" where
  "strictly_descending xs = sorted_wrt (\<lambda>x y. value' y < value' x) xs"

text \<open>Insertion of an element from the right end of a non-increasing list, as
  \<open>pis_shift\<close> does it in the array.\<close>

fun ins_right :: "ExtMove \<Rightarrow> ExtMove list \<Rightarrow> ExtMove list" where
  "ins_right t [] = [t]"
| "ins_right t (y # ys) = (if value' y < value' t then y # ins_right t ys else t # y # ys)"

definition ins_desc :: "ExtMove \<Rightarrow> ExtMove list \<Rightarrow> ExtMove list" where
  "ins_desc t xs = rev (ins_right t (rev xs))"

definition array_of :: "ExtMove list \<Rightarrow> ExtMoves" where
  "array_of xs i = (if i < length xs then xs ! i else \<lparr>move = Move_none, value' = 0\<rparr>)"

subsection \<open>What the absent headers declare\<close>

text \<open>
  \<^verbatim>\<open>Position\<close> (position.h): the queries \<^verbatim>\<open>movepick.cpp\<close> calls. \<open>checkers\<close> is
  \<^verbatim>\<open>pos.checkers()\<close> converted to \<^verbatim>\<open>bool\<close>.
\<close>

record Position =
  checkers :: bool
  side_to_move :: Color
  piece_on :: "Square \<Rightarrow> Piece"
  moved_piece :: "Move \<Rightarrow> Piece"
  pseudo_legal :: "Move \<Rightarrow> bool"
  capture :: "Move \<Rightarrow> bool"
  capture_stage :: "Move \<Rightarrow> bool"
  see_ge :: "Move \<Rightarrow> int \<Rightarrow> bool"

datatype GenType = CAPTURES | QUIETS | QUIET_CHECKS | EVASIONS

datatype PickType = Next | Best

type_synonym ButterflyHistory = "Color \<Rightarrow> nat \<Rightarrow> int"
type_synonym PieceToHistory = "Piece \<Rightarrow> Square \<Rightarrow> int"
type_synonym CapturePieceToHistory = "Piece \<Rightarrow> Square \<Rightarrow> nat \<Rightarrow> int"
type_synonym PawnHistory = "nat \<Rightarrow> Piece \<Rightarrow> Square \<Rightarrow> int"

text \<open>
  The tables, constants and free functions of types.h, movegen.h and movepick.h that
  \<^verbatim>\<open>movepick.cpp\<close> uses: \<open>PieceValue_MG\<close> is the row \<^verbatim>\<open>PieceValue[MG]\<close>;
  \<open>generate T pos\<close> is the list of moves \<^verbatim>\<open>generate<T>(pos, cur)\<close> writes, in
  order; \<open>contHistory\<close> is the array of tables that \<^verbatim>\<open>score<QUIETS>\<close> reads under
  that name.
\<close>

record Externals =
  PieceValue_MG :: "Piece \<Rightarrow> int"
  relative_rank :: "Color \<Rightarrow> Square \<Rightarrow> int"
  to_sq :: "Move \<Rightarrow> Square"
  from_to :: "Move \<Rightarrow> nat"
  type_of :: "Piece \<Rightarrow> int"
  generate :: "GenType \<Rightarrow> Position \<Rightarrow> Move list"
  contHistory :: "nat \<Rightarrow> PieceToHistory"
  DEPTH_QS_CHECKS :: Depth

text \<open>\<^verbatim>\<open>std::numeric_limits<int>::min()\<close> of a 32-bit \<^verbatim>\<open>int\<close>.\<close>

definition INT_MIN :: int where
  "INT_MIN = - (2 ^ 31)"

text \<open>The division of two \<^verbatim>\<open>int\<close>s in C++ truncates towards zero.\<close>

definition trunc_div :: "int \<Rightarrow> int \<Rightarrow> int" where
  "trunc_div a b = sgn a * sgn b * (\<bar>a\<bar> div \<bar>b\<bar>)"

subsection \<open>The stages\<close>

text \<open>The enumeration \<^verbatim>\<open>Stages\<close>; \<^verbatim>\<open>stage\<close> is an \<^verbatim>\<open>int\<close> that takes these values
  and is advanced by \<^verbatim>\<open>++stage\<close>.\<close>

definition MAIN_TT :: nat where "MAIN_TT = 0"
definition CAPTURE_INIT :: nat where "CAPTURE_INIT = 1"
definition GOOD_CAPTURE :: nat where "GOOD_CAPTURE = 2"
definition REFUTATION :: nat where "REFUTATION = 3"
definition QUIET_INIT :: nat where "QUIET_INIT = 4"
definition GOOD_QUIET :: nat where "GOOD_QUIET = 5"
definition BAD_CAPTURE :: nat where "BAD_CAPTURE = 6"
definition BAD_QUIET :: nat where "BAD_QUIET = 7"
definition EVASION_TT :: nat where "EVASION_TT = 8"
definition EVASION_INIT :: nat where "EVASION_INIT = 9"
definition EVASION :: nat where "EVASION = 10"
definition PROBCUT_TT :: nat where "PROBCUT_TT = 11"
definition PROBCUT_INIT :: nat where "PROBCUT_INIT = 12"
definition PROBCUT :: nat where "PROBCUT = 13"
definition QSEARCH_TT :: nat where "QSEARCH_TT = 14"
definition QCAPTURE_INIT :: nat where "QCAPTURE_INIT = 15"
definition QCAPTURE :: nat where "QCAPTURE = 16"
definition QCHECK_INIT :: nat where "QCHECK_INIT = 17"
definition QCHECK :: nat where "QCHECK = 18"

lemmas stage_defs =
  MAIN_TT_def CAPTURE_INIT_def GOOD_CAPTURE_def REFUTATION_def QUIET_INIT_def GOOD_QUIET_def
  BAD_CAPTURE_def BAD_QUIET_def EVASION_TT_def EVASION_INIT_def EVASION_def PROBCUT_TT_def
  PROBCUT_INIT_def PROBCUT_def QSEARCH_TT_def QCAPTURE_INIT_def QCAPTURE_def QCHECK_INIT_def
  QCHECK_def

subsection \<open>The picker and its pointers\<close>

text \<open>
  A pointer to an \<^verbatim>\<open>ExtMove\<close> points into one of the two arrays of the picker:
  \<open>Moves i\<close> is \<^verbatim>\<open>moves + i\<close> and \<open>Refutations i\<close> is \<^verbatim>\<open>refutations + i\<close>.
  \<^verbatim>\<open>cur\<close> and \<^verbatim>\<open>endMoves\<close> point into \<^verbatim>\<open>refutations\<close> during the refutation stage
  and into \<^verbatim>\<open>moves\<close> otherwise.
\<close>

datatype ExtMovePtr = Moves nat | Refutations nat

record MovePicker =
  pos :: Position
  mainHistory :: ButterflyHistory
  captureHistory :: CapturePieceToHistory
  continuationHistory :: "nat \<Rightarrow> PieceToHistory"
  pawnHistory :: PawnHistory
  ttMove :: Move
  refutations :: ExtMoves
  cur :: ExtMovePtr
  endMoves :: ExtMovePtr
  endBadCaptures :: ExtMovePtr
  beginBadQuiets :: ExtMovePtr
  endBadQuiets :: ExtMovePtr
  stage :: nat
  threshold :: int
  depth :: Depth
  moves :: ExtMoves

fun idx :: "ExtMovePtr \<Rightarrow> nat" where
  "idx (Moves i) = i"
| "idx (Refutations i) = i"

fun same_array :: "ExtMovePtr \<Rightarrow> ExtMovePtr \<Rightarrow> bool" where
  "same_array (Moves i) (Moves j) = True"
| "same_array (Refutations i) (Refutations j) = True"
| "same_array p q = False"

fun ptr_add :: "ExtMovePtr \<Rightarrow> nat \<Rightarrow> ExtMovePtr" where
  "ptr_add (Moves i) n = Moves (i + n)"
| "ptr_add (Refutations i) n = Refutations (i + n)"

fun ptr_sub :: "ExtMovePtr \<Rightarrow> nat \<Rightarrow> ExtMovePtr" where
  "ptr_sub (Moves i) n = Moves (i - n)"
| "ptr_sub (Refutations i) n = Refutations (i - n)"

text \<open>\<^verbatim>\<open>p < q\<close> on pointers; the source compares only pointers into the same array.\<close>

definition ptr_less :: "ExtMovePtr \<Rightarrow> ExtMovePtr \<Rightarrow> bool" where
  "ptr_less p q = (same_array p q \<and> idx p < idx q)"

fun array_at :: "MovePicker \<Rightarrow> ExtMovePtr \<Rightarrow> ExtMoves" where
  "array_at s (Moves i) = moves s"
| "array_at s (Refutations i) = refutations s"

fun set_array :: "ExtMovePtr \<Rightarrow> ExtMoves \<Rightarrow> MovePicker \<Rightarrow> MovePicker" where
  "set_array (Moves i) a s = s\<lparr>moves := a\<rparr>"
| "set_array (Refutations i) a s = s\<lparr>refutations := a\<rparr>"

text \<open>\<^verbatim>\<open>*p\<close> and \<^verbatim>\<open>*p = v\<close>.\<close>

definition deref :: "MovePicker \<Rightarrow> ExtMovePtr \<Rightarrow> ExtMove" where
  "deref s p = array_at s p (idx p)"

definition store :: "ExtMovePtr \<Rightarrow> ExtMove \<Rightarrow> MovePicker \<Rightarrow> MovePicker" where
  "store p v s = set_array p ((array_at s p)(idx p := v)) s"

subsection \<open>The constructors\<close>

text \<open>
  A constructor initialises the members of its initialiser list and \<^verbatim>\<open>stage\<close>; the
  other members keep whatever the storage \<open>s0\<close> of the object held. The
  \<^verbatim>\<open>assert\<close>s (\<^verbatim>\<open>d > 0\<close>, \<^verbatim>\<open>d <= 0\<close>, \<^verbatim>\<open>!pos.checkers()\<close>) are the callers'
  obligations.
\<close>

definition MovePicker_main ::
  "MovePicker \<Rightarrow> Position \<Rightarrow> Move \<Rightarrow> Depth \<Rightarrow> ButterflyHistory \<Rightarrow> CapturePieceToHistory
   \<Rightarrow> (nat \<Rightarrow> PieceToHistory) \<Rightarrow> PawnHistory \<Rightarrow> Move \<Rightarrow> (nat \<Rightarrow> Move) \<Rightarrow> MovePicker" where
  "MovePicker_main s0 p ttm d mh cph ch ph cm killers =
     s0\<lparr>pos := p, mainHistory := mh, captureHistory := cph, continuationHistory := ch,
        pawnHistory := ph, ttMove := ttm,
        refutations := (refutations s0)
          (0 := \<lparr>move = killers 0, value' = 0\<rparr>,
           1 := \<lparr>move = killers 1, value' = 0\<rparr>,
           2 := \<lparr>move = cm, value' = 0\<rparr>),
        depth := d,
        stage := (if checkers p then EVASION_TT else MAIN_TT)
                 + (if ttm \<noteq> Move_none \<and> pseudo_legal p ttm then 0 else 1)\<rparr>"

definition MovePicker_qsearch ::
  "MovePicker \<Rightarrow> Position \<Rightarrow> Move \<Rightarrow> Depth \<Rightarrow> ButterflyHistory \<Rightarrow> CapturePieceToHistory
   \<Rightarrow> (nat \<Rightarrow> PieceToHistory) \<Rightarrow> PawnHistory \<Rightarrow> MovePicker" where
  "MovePicker_qsearch s0 p ttm d mh cph ch ph =
     s0\<lparr>pos := p, mainHistory := mh, captureHistory := cph, continuationHistory := ch,
        pawnHistory := ph, ttMove := ttm, depth := d,
        stage := (if checkers p then EVASION_TT else QSEARCH_TT)
                 + (if ttm \<noteq> Move_none \<and> pseudo_legal p ttm then 0 else 1)\<rparr>"

definition MovePicker_probcut ::
  "MovePicker \<Rightarrow> Position \<Rightarrow> Move \<Rightarrow> int \<Rightarrow> CapturePieceToHistory \<Rightarrow> MovePicker" where
  "MovePicker_probcut s0 p ttm th cph =
     s0\<lparr>pos := p, captureHistory := cph, ttMove := ttm, threshold := th,
        stage := PROBCUT_TT
                 + (if ttm \<noteq> Move_none \<and> capture_stage p ttm \<and> pseudo_legal p ttm
                       \<and> see_ge p ttm th then 0 else 1)\<rparr>"

subsection \<open>score\<close>

text \<open>The value \<^verbatim>\<open>score<Type>\<close> assigns to the move \<open>m\<close>. The \<^verbatim>\<open>static_assert\<close>
  admits the three types of the chain; the last branch is its \<^verbatim>\<open>else\<close>.\<close>

definition score_value :: "Externals \<Rightarrow> GenType \<Rightarrow> MovePicker \<Rightarrow> Move \<Rightarrow> int" where
  "score_value X T s m =
     (if T = CAPTURES then
        PieceValue_MG X (piece_on (pos s) (to_sq X m))
        - 200 * relative_rank X (side_to_move (pos s)) (to_sq X m)
      else if T = QUIETS then
        mainHistory s (side_to_move (pos s)) (from_to X m)
        + contHistory X 0 (moved_piece (pos s) m) (to_sq X m)
        + contHistory X 1 (moved_piece (pos s) m) (to_sq X m)
        + contHistory X 3 (moved_piece (pos s) m) (to_sq X m)
      else
        (if capture (pos s) m then
           PieceValue_MG X (piece_on (pos s) (to_sq X m)) - type_of X (moved_piece (pos s) m)
         else mainHistory s (side_to_move (pos s)) (from_to X m) - 2 ^ 28))"

text \<open>The loop \<^verbatim>\<open>for (auto& m : *this)\<close> over \<open>[cur, endMoves)\<close>, in an array.\<close>

function score_loop :: "(Move \<Rightarrow> int) \<Rightarrow> ExtMoves \<Rightarrow> nat \<Rightarrow> nat \<Rightarrow> ExtMoves" where
  "score_loop f a i e =
     (if i < e then score_loop f (a(i := (a i)\<lparr>value' := f (move (a i))\<rparr>)) (Suc i) e else a)"
  by pat_completeness auto
termination
  by (relation "measure (\<lambda>(f, a, i, e). e - i)") auto

declare score_loop.simps [simp del]

definition score :: "Externals \<Rightarrow> GenType \<Rightarrow> MovePicker \<Rightarrow> MovePicker" where
  "score X T s =
     (if same_array (cur s) (endMoves s)
      then set_array (cur s)
             (score_loop (score_value X T s) (array_at s (cur s)) (idx (cur s)) (idx (endMoves s))) s
      else s)"

subsection \<open>generate and the sort, on the picker\<close>

text \<open>\<^verbatim>\<open>generate<T>(pos, p)\<close> assigns the moves to \<^verbatim>\<open>*p++\<close> (the assignment of a
  \<^verbatim>\<open>Move\<close> to an \<^verbatim>\<open>ExtMove\<close> leaves its value) and returns the end.\<close>

fun write_moves :: "ExtMoves \<Rightarrow> nat \<Rightarrow> Move list \<Rightarrow> ExtMoves" where
  "write_moves a i [] = a"
| "write_moves a i (m # ms) = write_moves (a(i := (a i)\<lparr>move := m\<rparr>)) (Suc i) ms"

definition generate_at ::
  "Externals \<Rightarrow> GenType \<Rightarrow> ExtMovePtr \<Rightarrow> MovePicker \<Rightarrow> ExtMovePtr \<times> MovePicker" where
  "generate_at X T p s =
     (ptr_add p (length (generate X T (pos s))),
      set_array p (write_moves (array_at s p) (idx p) (generate X T (pos s))) s)"

definition sort_range :: "ExtMovePtr \<Rightarrow> ExtMovePtr \<Rightarrow> int \<Rightarrow> MovePicker \<Rightarrow> MovePicker" where
  "sort_range b e limit s =
     (if same_array b e
      then set_array b (partial_insertion_sort (array_at s b) (idx b) (idx e) limit) s
      else s)"

subsection \<open>select\<close>

text \<open>\<^verbatim>\<open>std::max_element(first, last)\<close>: the first of the largest elements.\<close>

function max_element_loop :: "ExtMoves \<Rightarrow> nat \<Rightarrow> nat \<Rightarrow> nat \<Rightarrow> nat" where
  "max_element_loop a largest i e =
     (if i < e
      then max_element_loop a (if value' (a largest) < value' (a i) then i else largest) (Suc i) e
      else largest)"
  by pat_completeness auto
termination
  by (relation "measure (\<lambda>(a, l, i, e). e - i)") auto

declare max_element_loop.simps [simp del]

definition max_element :: "ExtMoves \<Rightarrow> nat \<Rightarrow> nat \<Rightarrow> nat" where
  "max_element a first last' = (if first = last' then last' else max_element_loop a first (Suc first) last')"

text \<open>\<^verbatim>\<open>std::swap(*cur, *std::max_element(cur, endMoves))\<close>.\<close>

definition swap_best :: "MovePicker \<Rightarrow> MovePicker" where
  "swap_best s =
     (let a = array_at s (cur s);
          i = idx (cur s);
          j = max_element a i (idx (endMoves s))
      in set_array (cur s) (a(i := a j, j := a i)) s)"

text \<open>
  The five predicates \<^verbatim>\<open>next_move\<close> passes to \<^verbatim>\<open>select\<close>, by call site. A predicate
  reads the picker through \<^verbatim>\<open>this\<close>; the one of the good captures also writes: it
  copies a losing capture to \<^verbatim>\<open>*endBadCaptures++\<close>.
\<close>

datatype Pred = GoodCapture | Refutation | NotRefutation | Always | SeeGeThreshold

fun filter_apply :: "Pred \<Rightarrow> MovePicker \<Rightarrow> bool \<times> MovePicker" where
  "filter_apply GoodCapture s =
     (if see_ge (pos s) (move (deref s (cur s))) (trunc_div (- value' (deref s (cur s))) 18)
      then (True, s)
      else (False, (store (endBadCaptures s) (deref s (cur s)) s)
                     \<lparr>endBadCaptures := ptr_add (endBadCaptures s) 1\<rparr>))"
| "filter_apply Refutation s =
     (move (deref s (cur s)) \<noteq> Move_none
      \<and> \<not> capture_stage (pos s) (move (deref s (cur s)))
      \<and> pseudo_legal (pos s) (move (deref s (cur s))), s)"
| "filter_apply NotRefutation s =
     (move (deref s (cur s)) \<noteq> move (refutations s 0)
      \<and> move (deref s (cur s)) \<noteq> move (refutations s 1)
      \<and> move (deref s (cur s)) \<noteq> move (refutations s 2), s)"
| "filter_apply Always s = (True, s)"
| "filter_apply SeeGeThreshold s = (see_ge (pos s) (move (deref s (cur s))) (threshold s), s)"

text \<open>One pass of the loop of \<^verbatim>\<open>select\<close> up to the test: the swap of \<^verbatim>\<open>Best\<close>, then
  \<^verbatim>\<open>*cur != ttMove && filter()\<close>, which calls the predicate only for a move other than
  the hash move.\<close>

definition select_test :: "PickType \<Rightarrow> Pred \<Rightarrow> MovePicker \<Rightarrow> bool \<times> MovePicker" where
  "select_test T P s =
     (let s1 = (if T = Best then swap_best s else s)
      in if move (deref s1 (cur s1)) \<noteq> ttMove s1 then filter_apply P s1 else (False, s1))"

lemma array_at_set_array: "array_at (set_array p a s) p = a"
  by (cases p) simp_all

lemma set_array_fields [simp]:
  "cur (set_array p a s) = cur s"
  "endMoves (set_array p a s) = endMoves s"
  "endBadCaptures (set_array p a s) = endBadCaptures s"
  "beginBadQuiets (set_array p a s) = beginBadQuiets s"
  "endBadQuiets (set_array p a s) = endBadQuiets s"
  "stage (set_array p a s) = stage s"
  "ttMove (set_array p a s) = ttMove s"
  "pos (set_array p a s) = pos s"
  "depth (set_array p a s) = depth s"
  "threshold (set_array p a s) = threshold s"
  "mainHistory (set_array p a s) = mainHistory s"
  by (cases p; simp)+

lemma store_fields [simp]:
  "cur (store p v s) = cur s"
  "endMoves (store p v s) = endMoves s"
  "endBadCaptures (store p v s) = endBadCaptures s"
  "beginBadQuiets (store p v s) = beginBadQuiets s"
  "endBadQuiets (store p v s) = endBadQuiets s"
  "stage (store p v s) = stage s"
  "ttMove (store p v s) = ttMove s"
  "pos (store p v s) = pos s"
  "depth (store p v s) = depth s"
  "threshold (store p v s) = threshold s"
  "mainHistory (store p v s) = mainHistory s"
  by (simp_all add: store_def)

lemma swap_best_fields [simp]:
  "cur (swap_best s) = cur s"
  "endMoves (swap_best s) = endMoves s"
  "endBadCaptures (swap_best s) = endBadCaptures s"
  "beginBadQuiets (swap_best s) = beginBadQuiets s"
  "endBadQuiets (swap_best s) = endBadQuiets s"
  "stage (swap_best s) = stage s"
  "ttMove (swap_best s) = ttMove s"
  "pos (swap_best s) = pos s"
  "depth (swap_best s) = depth s"
  "threshold (swap_best s) = threshold s"
  "mainHistory (swap_best s) = mainHistory s"
  by (simp_all add: swap_best_def Let_def)

lemma filter_apply_fields [simp]:
  "cur (snd (filter_apply P s)) = cur s"
  "endMoves (snd (filter_apply P s)) = endMoves s"
  "beginBadQuiets (snd (filter_apply P s)) = beginBadQuiets s"
  "endBadQuiets (snd (filter_apply P s)) = endBadQuiets s"
  "stage (snd (filter_apply P s)) = stage s"
  "ttMove (snd (filter_apply P s)) = ttMove s"
  "pos (snd (filter_apply P s)) = pos s"
  "depth (snd (filter_apply P s)) = depth s"
  "threshold (snd (filter_apply P s)) = threshold s"
  "mainHistory (snd (filter_apply P s)) = mainHistory s"
  by (cases P; simp)+

lemma select_test_fields [simp]:
  "cur (snd (select_test T P s)) = cur s"
  "endMoves (snd (select_test T P s)) = endMoves s"
  "beginBadQuiets (snd (select_test T P s)) = beginBadQuiets s"
  "endBadQuiets (snd (select_test T P s)) = endBadQuiets s"
  "stage (snd (select_test T P s)) = stage s"
  "ttMove (snd (select_test T P s)) = ttMove s"
  "pos (snd (select_test T P s)) = pos s"
  "depth (snd (select_test T P s)) = depth s"
  "threshold (snd (select_test T P s)) = threshold s"
  "mainHistory (snd (select_test T P s)) = mainHistory s"
  by (simp_all add: select_test_def Let_def)

text \<open>\<^verbatim>\<open>cur++\<close>.\<close>

definition advance :: "MovePicker \<Rightarrow> MovePicker" where
  "advance s = s\<lparr>cur := ptr_add (cur s) 1\<rparr>"

text \<open>
  \<^verbatim>\<open>select<T>(filter)\<close>: while \<^verbatim>\<open>cur < endMoves\<close>, return \<^verbatim>\<open>*cur++\<close> when the test
  holds, else \<^verbatim>\<open>cur++\<close>; \<^verbatim>\<open>Move::none()\<close> when the range is exhausted.
\<close>

function select :: "PickType \<Rightarrow> Pred \<Rightarrow> MovePicker \<Rightarrow> Move \<times> MovePicker" where
  "select T P s =
     (if ptr_less (cur s) (endMoves s) then
        (if fst (select_test T P s)
         then (move (deref (snd (select_test T P s)) (cur (snd (select_test T P s)))),
               advance (snd (select_test T P s)))
         else select T P (advance (snd (select_test T P s))))
      else (Move_none, s))"
  by pat_completeness auto
termination
proof (relation "measure (\<lambda>(T, P, s). idx (endMoves s) - idx (cur s))")
  show "wf (measure (\<lambda>(T, P, s). idx (endMoves s) - idx (cur s)))"
    by simp
next
  fix T :: PickType and P :: Pred and s :: MovePicker
  assume less: "ptr_less (cur s) (endMoves s)"
  have "idx (cur s) < idx (endMoves s)"
    using less by (simp add: ptr_less_def)
  moreover have "idx (ptr_add (cur s) 1) = idx (cur s) + 1"
    by (cases "cur s") simp_all
  ultimately show "((T, P, advance (snd (select_test T P s))), (T, P, s)) \<in>
      measure (\<lambda>(T, P, s). idx (endMoves s) - idx (cur s))"
    by (simp add: advance_def)
qed

declare select.simps [simp del]

subsection \<open>next_move\<close>

definition quiet_threshold :: "Depth \<Rightarrow> int" where
  "quiet_threshold d = - 3330 * d"

text \<open>\<^verbatim>\<open>++stage\<close>.\<close>

definition next_stage :: "MovePicker \<Rightarrow> MovePicker" where
  "next_stage s = s\<lparr>stage := stage s + 1\<rparr>"

text \<open>The code of each \<^verbatim>\<open>case\<close> label, down to its \<^verbatim>\<open>return\<close> or, where the source
  falls through, into the code of the next label. The last label of a chain comes
  first.\<close>

definition case_BAD_QUIET :: "bool \<Rightarrow> MovePicker \<Rightarrow> Move \<times> MovePicker" where
  "case_BAD_QUIET skipQuiets s =
     (if \<not> skipQuiets then select Next NotRefutation s else (Move_none, s))"

definition case_BAD_CAPTURE :: "bool \<Rightarrow> MovePicker \<Rightarrow> Move \<times> MovePicker" where
  "case_BAD_CAPTURE skipQuiets s =
     (let (m, s1) = select Next Always s
      in if m \<noteq> Move_none then (move (deref s1 (ptr_sub (cur s1) 1)), s1)
         else case_BAD_QUIET skipQuiets
                (next_stage (s1\<lparr>cur := beginBadQuiets s1, endMoves := endBadQuiets s1\<rparr>)))"

definition case_GOOD_QUIET :: "bool \<Rightarrow> MovePicker \<Rightarrow> Move \<times> MovePicker" where
  "case_GOOD_QUIET skipQuiets s =
     (let (m, s1) = (if \<not> skipQuiets then select Next NotRefutation s else (Move_none, s));
          prev = deref s1 (ptr_sub (cur s1) 1)
      in if \<not> skipQuiets \<and> m \<noteq> Move_none
            \<and> (value' prev > - 8000 \<or> value' prev \<le> quiet_threshold (depth s1))
         then (move prev, s1)
         else
           (let s2 = (if \<not> skipQuiets \<and> m \<noteq> Move_none
                      then s1\<lparr>beginBadQuiets := ptr_sub (cur s1) 1\<rparr> else s1)
            in case_BAD_CAPTURE skipQuiets
                 (next_stage (s2\<lparr>cur := Moves 0, endMoves := endBadCaptures s2\<rparr>))))"

definition quiet_init :: "Externals \<Rightarrow> MovePicker \<Rightarrow> MovePicker" where
  "quiet_init X s =
     (let s1 = s\<lparr>cur := endBadCaptures s\<rparr>;
          (e, s2) = generate_at X QUIETS (cur s1) s1;
          s3 = s2\<lparr>endMoves := e, beginBadQuiets := e, endBadQuiets := e\<rparr>;
          s4 = score X QUIETS s3
      in sort_range (cur s4) (endMoves s4) (quiet_threshold (depth s4)) s4)"

definition case_QUIET_INIT :: "Externals \<Rightarrow> bool \<Rightarrow> MovePicker \<Rightarrow> Move \<times> MovePicker" where
  "case_QUIET_INIT X skipQuiets s =
     case_GOOD_QUIET skipQuiets (next_stage (if \<not> skipQuiets then quiet_init X s else s))"

definition case_REFUTATION :: "Externals \<Rightarrow> bool \<Rightarrow> MovePicker \<Rightarrow> Move \<times> MovePicker" where
  "case_REFUTATION X skipQuiets s =
     (let (m, s1) = select Next Refutation s
      in if m \<noteq> Move_none then (move (deref s1 (ptr_sub (cur s1) 1)), s1)
         else case_QUIET_INIT X skipQuiets (next_stage s1))"

definition refutation_init :: "MovePicker \<Rightarrow> MovePicker" where
  "refutation_init s =
     (let s1 = s\<lparr>cur := Refutations 0, endMoves := Refutations 3\<rparr>
      in if move (refutations s1 0) = move (refutations s1 2)
            \<or> move (refutations s1 1) = move (refutations s1 2)
         then s1\<lparr>endMoves := ptr_sub (endMoves s1) 1\<rparr> else s1)"

definition case_GOOD_CAPTURE :: "Externals \<Rightarrow> bool \<Rightarrow> MovePicker \<Rightarrow> Move \<times> MovePicker" where
  "case_GOOD_CAPTURE X skipQuiets s =
     (let (m, s1) = select Next GoodCapture s
      in if m \<noteq> Move_none then (move (deref s1 (ptr_sub (cur s1) 1)), s1)
         else case_REFUTATION X skipQuiets (next_stage (refutation_init s1)))"

text \<open>The code shared by \<^verbatim>\<open>CAPTURE_INIT\<close>, \<^verbatim>\<open>PROBCUT_INIT\<close> and \<^verbatim>\<open>QCAPTURE_INIT\<close>, up
  to the \<^verbatim>\<open>goto top\<close>.\<close>

definition capture_init :: "Externals \<Rightarrow> MovePicker \<Rightarrow> MovePicker" where
  "capture_init X s =
     (let s1 = s\<lparr>cur := Moves 0, endBadCaptures := Moves 0\<rparr>;
          (e, s2) = generate_at X CAPTURES (cur s1) s1;
          s3 = s2\<lparr>endMoves := e\<rparr>;
          s4 = score X CAPTURES s3;
          s5 = sort_range (cur s4) (endMoves s4) INT_MIN s4
      in next_stage s5)"

definition case_EVASION :: "MovePicker \<Rightarrow> Move \<times> MovePicker" where
  "case_EVASION s = select Best Always s"

definition evasion_init :: "Externals \<Rightarrow> MovePicker \<Rightarrow> MovePicker" where
  "evasion_init X s =
     (let s1 = s\<lparr>cur := Moves 0\<rparr>;
          (e, s2) = generate_at X EVASIONS (cur s1) s1;
          s3 = s2\<lparr>endMoves := e\<rparr>;
          s4 = score X EVASIONS s3
      in next_stage s4)"

definition case_EVASION_INIT :: "Externals \<Rightarrow> MovePicker \<Rightarrow> Move \<times> MovePicker" where
  "case_EVASION_INIT X s = case_EVASION (evasion_init X s)"

definition case_PROBCUT :: "MovePicker \<Rightarrow> Move \<times> MovePicker" where
  "case_PROBCUT s = select Next SeeGeThreshold s"

definition case_QCHECK :: "MovePicker \<Rightarrow> Move \<times> MovePicker" where
  "case_QCHECK s = select Next Always s"

definition qcheck_init :: "Externals \<Rightarrow> MovePicker \<Rightarrow> MovePicker" where
  "qcheck_init X s =
     (let s1 = s\<lparr>cur := Moves 0\<rparr>;
          (e, s2) = generate_at X QUIET_CHECKS (cur s1) s1;
          s3 = s2\<lparr>endMoves := e\<rparr>
      in next_stage s3)"

definition case_QCHECK_INIT :: "Externals \<Rightarrow> MovePicker \<Rightarrow> Move \<times> MovePicker" where
  "case_QCHECK_INIT X s = case_QCHECK (qcheck_init X s)"

definition case_QCAPTURE :: "Externals \<Rightarrow> MovePicker \<Rightarrow> Move \<times> MovePicker" where
  "case_QCAPTURE X s =
     (let (m, s1) = select Next Always s
      in if m \<noteq> Move_none then (move (deref s1 (ptr_sub (cur s1) 1)), s1)
         else if depth s1 \<noteq> DEPTH_QS_CHECKS X then (Move_none, s1)
         else case_QCHECK_INIT X (next_stage s1))"

lemma score_fields [simp]:
  "cur (score X T s) = cur s"
  "endMoves (score X T s) = endMoves s"
  "endBadCaptures (score X T s) = endBadCaptures s"
  "beginBadQuiets (score X T s) = beginBadQuiets s"
  "endBadQuiets (score X T s) = endBadQuiets s"
  "stage (score X T s) = stage s"
  "ttMove (score X T s) = ttMove s"
  "pos (score X T s) = pos s"
  "depth (score X T s) = depth s"
  "threshold (score X T s) = threshold s"
  "mainHistory (score X T s) = mainHistory s"
  by (simp_all add: score_def)

lemma sort_range_fields [simp]:
  "cur (sort_range b e l s) = cur s"
  "endMoves (sort_range b e l s) = endMoves s"
  "endBadCaptures (sort_range b e l s) = endBadCaptures s"
  "beginBadQuiets (sort_range b e l s) = beginBadQuiets s"
  "endBadQuiets (sort_range b e l s) = endBadQuiets s"
  "stage (sort_range b e l s) = stage s"
  "ttMove (sort_range b e l s) = ttMove s"
  "pos (sort_range b e l s) = pos s"
  "depth (sort_range b e l s) = depth s"
  "threshold (sort_range b e l s) = threshold s"
  "mainHistory (sort_range b e l s) = mainHistory s"
  by (simp_all add: sort_range_def)

lemma generate_at_fields [simp]:
  "cur (snd (generate_at X T p s)) = cur s"
  "endMoves (snd (generate_at X T p s)) = endMoves s"
  "endBadCaptures (snd (generate_at X T p s)) = endBadCaptures s"
  "beginBadQuiets (snd (generate_at X T p s)) = beginBadQuiets s"
  "endBadQuiets (snd (generate_at X T p s)) = endBadQuiets s"
  "stage (snd (generate_at X T p s)) = stage s"
  "ttMove (snd (generate_at X T p s)) = ttMove s"
  "pos (snd (generate_at X T p s)) = pos s"
  "depth (snd (generate_at X T p s)) = depth s"
  "threshold (snd (generate_at X T p s)) = threshold s"
  "mainHistory (snd (generate_at X T p s)) = mainHistory s"
  by (simp_all add: generate_at_def)

lemma stage_capture_init [simp]: "stage (capture_init X s) = stage s + 1"
  by (simp add: capture_init_def Let_def next_stage_def split: prod.splits)
    (metis generate_at_fields(6) snd_conv MovePicker.select_convs(13) MovePicker.surjective
      MovePicker.update_convs(8) MovePicker.update_convs(10) MovePicker.update_convs(9))

text \<open>
  \<^verbatim>\<open>next_move\<close>: the \<^verbatim>\<open>switch\<close> on the stage. The three initialisation stages of the
  captures end in \<^verbatim>\<open>goto top\<close>, the recursive call. A stage outside the enumeration
  reaches the \<^verbatim>\<open>assert(false)\<close> and returns \<^verbatim>\<open>Move::none()\<close>.
\<close>

function next_move :: "Externals \<Rightarrow> bool \<Rightarrow> MovePicker \<Rightarrow> Move \<times> MovePicker" where
  "next_move X skipQuiets s =
     (if stage s = MAIN_TT \<or> stage s = EVASION_TT \<or> stage s = QSEARCH_TT \<or> stage s = PROBCUT_TT
        then (ttMove s, next_stage s)
      else if stage s = CAPTURE_INIT \<or> stage s = PROBCUT_INIT \<or> stage s = QCAPTURE_INIT
        then next_move X skipQuiets (capture_init X s)
      else if stage s = GOOD_CAPTURE then case_GOOD_CAPTURE X skipQuiets s
      else if stage s = REFUTATION then case_REFUTATION X skipQuiets s
      else if stage s = QUIET_INIT then case_QUIET_INIT X skipQuiets s
      else if stage s = GOOD_QUIET then case_GOOD_QUIET skipQuiets s
      else if stage s = BAD_CAPTURE then case_BAD_CAPTURE skipQuiets s
      else if stage s = BAD_QUIET then case_BAD_QUIET skipQuiets s
      else if stage s = EVASION_INIT then case_EVASION_INIT X s
      else if stage s = EVASION then case_EVASION s
      else if stage s = PROBCUT then case_PROBCUT s
      else if stage s = QCAPTURE then case_QCAPTURE X s
      else if stage s = QCHECK_INIT then case_QCHECK_INIT X s
      else if stage s = QCHECK then case_QCHECK s
      else (Move_none, s))"
  by pat_completeness auto
termination
  by (relation "measure (\<lambda>(X, b, s). if stage s = CAPTURE_INIT \<or> stage s = PROBCUT_INIT
        \<or> stage s = QCAPTURE_INIT then 1 else 0)")
     (auto simp: stage_defs)

declare next_move.simps [simp del]

subsection \<open>Sequences of calls\<close>

text \<open>The calls \<^verbatim>\<open>next_move(b)\<close> for the flags \<open>b\<close> of a list, in order: the move each
  call returns, with the stage the picker is in after the call.\<close>

fun run :: "Externals \<Rightarrow> bool list \<Rightarrow> MovePicker \<Rightarrow> (Move \<times> nat) list" where
  "run X [] s = []"
| "run X (b # bs) s =
     (let (m, s') = next_move X b s in (m, stage s') # run X bs s')"

fun run_state :: "Externals \<Rightarrow> bool list \<Rightarrow> MovePicker \<Rightarrow> MovePicker" where
  "run_state X [] s = s"
| "run_state X (b # bs) s = run_state X bs (snd (next_move X b s))"

text \<open>The moves a sequence of calls returned from the stage \<open>st\<close>: those of the calls
  that returned a move and left the picker in that stage.\<close>

definition yields_at :: "nat \<Rightarrow> (Move \<times> nat) list \<Rightarrow> Move list" where
  "yields_at st tr = map fst (filter (\<lambda>(m, st'). st' = st \<and> m \<noteq> Move_none) tr)"

text \<open>All the moves a sequence of calls returned, in order, whatever the stage.\<close>

definition yields :: "(Move \<times> nat) list \<Rightarrow> Move list" where
  "yields tr = filter (\<lambda>m. m \<noteq> Move_none) (map fst tr)"

text \<open>The captures as the initialisation stage leaves them in \<^verbatim>\<open>moves\<close>: generated,
  scored and sorted.\<close>

definition sorted_captures :: "Externals \<Rightarrow> MovePicker \<Rightarrow> ExtMove list" where
  "sorted_captures X s =
     range_of (moves (capture_init X s)) 0 (length (generate X CAPTURES (pos s)))"

text \<open>The value \<^verbatim>\<open>score<CAPTURES>\<close> gives a move.\<close>

definition capture_value :: "Externals \<Rightarrow> Position \<Rightarrow> Move \<Rightarrow> int" where
  "capture_value X p m =
     PieceValue_MG X (piece_on p (to_sq X m)) - 200 * relative_rank X (side_to_move p) (to_sq X m)"

subsection \<open>A concrete position, for the examples\<close>

text \<open>Moves 10 and 11 are captures (11 loses the exchange), 20, 21 and 22 are quiet
  moves; a move's destination is its number modulo 64.\<close>

definition ex_X :: Externals where
  "ex_X = \<lparr>PieceValue_MG = (\<lambda>pc. 100 * int pc),
           relative_rank = (\<lambda>c sq. int (sq div 8)),
           to_sq = (\<lambda>m. m mod 64),
           from_to = (\<lambda>m. m),
           type_of = (\<lambda>pc. int (pc mod 8)),
           generate = (\<lambda>T p. case T of CAPTURES \<Rightarrow> [11, 10] | QUIETS \<Rightarrow> [20, 21, 22]
                        | QUIET_CHECKS \<Rightarrow> [22] | EVASIONS \<Rightarrow> [10, 20]),
           contHistory = (\<lambda>i pc sq. 0),
           DEPTH_QS_CHECKS = 0\<rparr>"

definition ex_pos :: Position where
  "ex_pos = \<lparr>checkers = False, side_to_move = 0,
             piece_on = (\<lambda>sq. if sq = 10 then 3 else if sq = 11 then 1 else 0),
             moved_piece = (\<lambda>m. 1),
             pseudo_legal = (\<lambda>m. m = 10 \<or> m = 11 \<or> m = 20 \<or> m = 21 \<or> m = 22),
             capture = (\<lambda>m. m = 10 \<or> m = 11),
             capture_stage = (\<lambda>m. m = 10 \<or> m = 11),
             see_ge = (\<lambda>m v. m = 10)\<rparr>"

definition ex_s0 :: MovePicker where
  "ex_s0 = \<lparr>pos = ex_pos, mainHistory = (\<lambda>c i. 0), captureHistory = (\<lambda>pc sq pt. 0),
            continuationHistory = (\<lambda>i pc sq. 0), pawnHistory = (\<lambda>i pc sq. 0),
            ttMove = Move_none, refutations = array_of [],
            cur = Moves 0, endMoves = Moves 0, endBadCaptures = Moves 0,
            beginBadQuiets = Moves 0, endBadQuiets = Moves 0,
            stage = 0, threshold = 0, depth = 0, moves = array_of []\<rparr>"

text \<open>A main-search picker at depth 1 with the quiet hash move 20, the killers 21 and
  none, and the counter-move 21.\<close>

definition ex_main :: MovePicker where
  "ex_main = MovePicker_main ex_s0 ex_pos 20 1 (\<lambda>c i. 0) (\<lambda>pc sq pt. 0) (\<lambda>i pc sq. 0)
     (\<lambda>i pc sq. 0) 21 (\<lambda>i. if i = 0 then 21 else Move_none)"

text \<open>The same picker with both killers and the counter-move equal to 21.\<close>

definition ex_main_same_killers :: MovePicker where
  "ex_main_same_killers = MovePicker_main ex_s0 ex_pos 20 1 (\<lambda>c i. 0) (\<lambda>pc sq pt. 0)
     (\<lambda>i pc sq. 0) (\<lambda>i pc sq. 0) 21 (\<lambda>i. 21)"

subsection \<open>Notions used in the statements and the proofs\<close>

text \<open>A call that starts in the state \<open>s\<close> and ends with \<open>r\<close>: the move returned is
  none or differs from the hash move, the hash move and the position are kept, and the
  stage has advanced by at most \<open>k\<close>.\<close>

definition step_ok :: "nat \<Rightarrow> MovePicker \<Rightarrow> Move \<times> MovePicker \<Rightarrow> bool" where
  "step_ok k s r \<longleftrightarrow>
     (fst r = Move_none \<or> fst r \<noteq> ttMove s) \<and> ttMove (snd r) = ttMove s
     \<and> pos (snd r) = pos s \<and> stage s \<le> stage (snd r) \<and> stage (snd r) \<le> stage s + k"

definition is_tt_stage :: "nat \<Rightarrow> bool" where
  "is_tt_stage n \<longleftrightarrow> n = MAIN_TT \<or> n = EVASION_TT \<or> n = QSEARCH_TT \<or> n = PROBCUT_TT"

definition with_histories ::
  "CapturePieceToHistory \<Rightarrow> PawnHistory \<Rightarrow> MovePicker \<Rightarrow> MovePicker" where
  "with_histories c h s = s\<lparr>captureHistory := c, pawnHistory := h\<rparr>"

definition with_histories_result ::
  "CapturePieceToHistory \<Rightarrow> PawnHistory \<Rightarrow> Move \<times> MovePicker \<Rightarrow> Move \<times> MovePicker" where
  "with_histories_result c h r = (fst r, with_histories c h (snd r))"

text \<open>Whether the predicate of a call site accepts an element, and whether
  \<open>select\<close> returns it: it is not the hash move and the predicate accepts it.\<close>

fun accepts :: "Pred \<Rightarrow> MovePicker \<Rightarrow> ExtMove \<Rightarrow> bool" where
  "accepts GoodCapture s x = see_ge (pos s) (move x) (trunc_div (- value' x) 18)"
| "accepts Refutation s x =
     (move x \<noteq> Move_none \<and> \<not> capture_stage (pos s) (move x) \<and> pseudo_legal (pos s) (move x))"
| "accepts NotRefutation s x =
     (move x \<noteq> move (refutations s 0) \<and> move x \<noteq> move (refutations s 1)
      \<and> move x \<noteq> move (refutations s 2))"
| "accepts Always s x = True"
| "accepts SeeGeThreshold s x = see_ge (pos s) (move x) (threshold s)"

definition picks :: "Pred \<Rightarrow> MovePicker \<Rightarrow> ExtMove \<Rightarrow> bool" where
  "picks P s x \<longleftrightarrow> move x \<noteq> ttMove s \<and> accepts P s x"

text \<open>The elements from \<^verbatim>\<open>cur\<close> up to \<^verbatim>\<open>endMoves\<close>.\<close>

definition remaining :: "MovePicker \<Rightarrow> ExtMove list" where
  "remaining s =
     (if same_array (cur s) (endMoves s)
      then range_of (array_at s (cur s)) (idx (cur s)) (idx (endMoves s)) else [])"

text \<open>The moves \<open>select\<close> is still to return from the range.\<close>

definition pending :: "Pred \<Rightarrow> MovePicker \<Rightarrow> Move list" where
  "pending P s = map move (filter (picks P s) (remaining s))"

text \<open>In the good-capture stage \<^verbatim>\<open>cur\<close>, \<^verbatim>\<open>endMoves\<close> and \<^verbatim>\<open>endBadCaptures\<close> point
  into \<^verbatim>\<open>moves\<close>, and \<^verbatim>\<open>endBadCaptures\<close> is not beyond \<^verbatim>\<open>cur\<close>.\<close>

definition good_shape :: "MovePicker \<Rightarrow> bool" where
  "good_shape s \<longleftrightarrow>
     (\<exists>c n e. cur s = Moves c \<and> endMoves s = Moves n \<and> endBadCaptures s = Moves e \<and> e \<le> c)"

text \<open>The bad-capture sub-range \<open>[moves, endBadCaptures)\<close>.\<close>

definition bad_captures :: "MovePicker \<Rightarrow> ExtMove list" where
  "bad_captures s = range_of (moves s) 0 (idx (endBadCaptures s))"

text \<open>An element the good-capture predicate is called for and rejects.\<close>

definition rejected :: "MovePicker \<Rightarrow> ExtMove \<Rightarrow> bool" where
  "rejected s x \<longleftrightarrow> move x \<noteq> ttMove s \<and> \<not> accepts GoodCapture s x"

text \<open>The bad-capture sub-range as it will be when the scan is over.\<close>

definition bad_total :: "MovePicker \<Rightarrow> ExtMove list" where
  "bad_total s = bad_captures s @ filter (rejected s) (remaining s)"

text \<open>
  What the picker is still to return, read off its state: the good captures, the bad
  captures and the refutations. In the good-capture stage the bad captures are those
  already set aside and those the scan will reject; the refutations are the ones the
  refutation stage will go through.
\<close>

definition bad_list :: "MovePicker \<Rightarrow> Move list" where
  "bad_list s = filter (\<lambda>m. m \<noteq> ttMove s) (map move (bad_captures s))"

definition ref_list :: "MovePicker \<Rightarrow> Move list" where
  "ref_list s = map move (filter (picks Refutation s)
     (range_of (refutations s) 0
        (if move (refutations s 0) = move (refutations s 2)
            \<or> move (refutations s 1) = move (refutations s 2) then 2 else 3)))"

definition good_rest :: "MovePicker \<Rightarrow> Move list" where
  "good_rest s = (if stage s = GOOD_CAPTURE then pending GoodCapture s else [])"

definition bad_rest :: "MovePicker \<Rightarrow> Move list" where
  "bad_rest s =
     (if stage s = GOOD_CAPTURE then filter (\<lambda>m. m \<noteq> ttMove s) (map move (bad_total s))
      else if stage s = REFUTATION \<or> stage s = QUIET_INIT \<or> stage s = GOOD_QUIET then bad_list s
      else if stage s = BAD_CAPTURE then pending Always s
      else [])"

definition ref_rest :: "MovePicker \<Rightarrow> Move list" where
  "ref_rest s =
     (if stage s = GOOD_CAPTURE then ref_list s
      else if stage s = REFUTATION then pending Refutation s
      else [])"

definition main_inv :: "MovePicker \<Rightarrow> bool" where
  "main_inv s \<longleftrightarrow>
     (if stage s = GOOD_CAPTURE then good_shape s
      else if stage s = REFUTATION \<or> stage s = QUIET_INIT \<or> stage s = GOOD_QUIET
        then (\<exists>e. endBadCaptures s = Moves e)
      else True)
     \<and> Move_none \<notin> set (good_rest s) \<and> Move_none \<notin> set (bad_rest s)"

text \<open>The move a call returned, if it returned one and ended in the stage \<open>st\<close>.\<close>

definition yield :: "nat \<Rightarrow> Move \<times> MovePicker \<Rightarrow> Move list" where
  "yield st r = (if stage (snd r) = st \<and> fst r \<noteq> Move_none then [fst r] else [])"

definition main_step :: "bool \<Rightarrow> MovePicker \<Rightarrow> Move \<times> MovePicker \<Rightarrow> bool" where
  "main_step b s r \<longleftrightarrow>
     main_inv (snd r) \<and> stage s \<le> stage (snd r) \<and> stage (snd r) \<le> BAD_QUIET
     \<and> stage (snd r) \<noteq> QUIET_INIT \<and> pos (snd r) = pos s \<and> ttMove (snd r) = ttMove s
     \<and> good_rest s = yield GOOD_CAPTURE r @ good_rest (snd r)
     \<and> bad_rest s = yield BAD_CAPTURE r @ bad_rest (snd r)
     \<and> ref_rest s = yield REFUTATION r @ ref_rest (snd r)
     \<and> (fst r = Move_none \<longrightarrow> stage (snd r) = BAD_QUIET)
     \<and> (fst r \<noteq> Move_none \<and> (stage (snd r) = GOOD_QUIET \<or> stage (snd r) = BAD_QUIET)
          \<longrightarrow> \<not> b)"

text \<open>The moves held by the three slots of \<^verbatim>\<open>refutations\<close>, and a call that keeps them
  and, when it ends in a quiet stage, returns none of them.\<close>

definition is_refutation :: "MovePicker \<Rightarrow> Move \<Rightarrow> bool" where
  "is_refutation s m \<longleftrightarrow>
     m = move (refutations s 0) \<or> m = move (refutations s 1) \<or> m = move (refutations s 2)"

definition quiet_step :: "MovePicker \<Rightarrow> Move \<times> MovePicker \<Rightarrow> bool" where
  "quiet_step s r \<longleftrightarrow>
     refutations (snd r) = refutations s
     \<and> (fst r \<noteq> Move_none \<and> (stage (snd r) = GOOD_QUIET \<or> stage (snd r) = BAD_QUIET)
          \<longrightarrow> \<not> is_refutation s (fst r))"

subsection \<open>Properties of partial_insertion_sort\<close>

lemma range_of_empty [simp]: "e \<le> b \<Longrightarrow> range_of a b e = []"
  by (simp add: range_of_def)

lemma length_range_of [simp]: "length (range_of a b e) = e - b"
  by (simp add: range_of_def)

lemma range_of_snoc: "b \<le> e \<Longrightarrow> range_of a b (Suc e) = range_of a b e @ [a e]"
  by (simp add: range_of_def)

lemma range_of_cons: "b < e \<Longrightarrow> range_of a b e = a b # range_of a (Suc b) e"
  by (simp add: range_of_def upt_conv_Cons)

lemma range_of_append:
  "b \<le> m \<Longrightarrow> m \<le> e \<Longrightarrow> range_of a b e = range_of a b m @ range_of a m e"
  unfolding range_of_def
  by (metis le_Suc_ex map_append upt_add_eq_append)

lemma range_of_cong:
  "(\<And>i. b \<le> i \<Longrightarrow> i < e \<Longrightarrow> a i = a' i) \<Longrightarrow> range_of a b e = range_of a' b e"
  by (simp add: range_of_def)

lemma range_of_nth [simp]: "i < e - b \<Longrightarrow> range_of a b e ! i = a (b + i)"
  by (simp add: range_of_def)

lemma set_range_of: "set (range_of a b e) = a ` {b..<e}"
  by (simp add: range_of_def)

lemma ins_desc_snoc:
  "ins_desc t (xs @ [y]) = (if value' y < value' t then ins_desc t xs @ [y] else xs @ [y, t])"
  by (simp add: ins_desc_def)

lemma ins_desc_Nil [simp]: "ins_desc t [] = [t]"
  by (simp add: ins_desc_def)

lemma mset_ins_right: "mset (ins_right t xs) = add_mset t (mset xs)"
  by (induction xs) auto

lemma mset_ins_desc: "mset (ins_desc t xs) = add_mset t (mset xs)"
  by (simp add: ins_desc_def mset_ins_right)

lemma set_ins_desc: "set (ins_desc t xs) = insert t (set xs)"
  by (metis mset_ins_desc set_mset_add_mset_insert set_mset_mset)

lemma length_ins_desc [simp]: "length (ins_desc t xs) = Suc (length xs)"
  by (metis mset_ins_desc size_add_mset size_mset)

lemma descending_snoc:
  "descending (xs @ [y]) \<longleftrightarrow> descending xs \<and> (\<forall>x\<in>set xs. value' y \<le> value' x)"
  by (auto simp: descending_def sorted_wrt_append)

lemma descending_ins_desc: "descending xs \<Longrightarrow> descending (ins_desc t xs)"
proof (induction xs rule: rev_induct)
  case Nil
  show ?case by (simp add: descending_def)
next
  case (snoc y xs)
  show ?case
  proof (cases "value' y < value' t")
    case True
    with snoc show ?thesis
      by (auto simp: ins_desc_snoc descending_snoc set_ins_desc)
  next
    case False
    have "descending ((xs @ [y]) @ [t])"
      unfolding descending_snoc [of "xs @ [y]" t]
      using snoc.prems False by (auto simp: descending_snoc)
    with False show ?thesis by (simp add: ins_desc_snoc)
  qed
qed

lemma pis_shift_outside:
  "b \<le> q \<Longrightarrow> i < b \<or> q < i \<Longrightarrow> pis_shift a b tmp q i = a i"
  by (induction a b tmp q rule: pis_shift.induct) auto

lemma pis_shift_range:
  "b \<le> q \<Longrightarrow> range_of (pis_shift a b tmp q) b (Suc q) = ins_desc tmp (range_of a b q)"
proof (induction a b tmp q rule: pis_shift.induct)
  case (1 a b tmp)
  then show ?case by (simp add: range_of_def)
next
  case (2 a b tmp q)
  show ?case
  proof (cases "Suc q \<noteq> b \<and> value' (a q) < value' tmp")
    case True
    then have bq: "b \<le> q" using 2 by simp
    let ?a1 = "a(Suc q := a q)"
    let ?r = "pis_shift ?a1 b tmp q"
    have IH: "range_of ?r b (Suc q) = ins_desc tmp (range_of ?a1 b q)"
      using "2.IH" True bq by blast
    have r1: "range_of ?a1 b q = range_of a b q"
      by (rule range_of_cong) simp
    have last: "?r (Suc q) = a q"
      using bq by (simp add: pis_shift_outside)
    have "range_of ?r b (Suc (Suc q)) = range_of ?r b (Suc q) @ [?r (Suc q)]"
      using bq by (simp add: range_of_snoc)
    also have "\<dots> = ins_desc tmp (range_of a b q) @ [a q]"
      by (simp add: IH r1 last)
    also have "\<dots> = ins_desc tmp (range_of a b (Suc q))"
      using True bq by (simp add: range_of_snoc ins_desc_snoc)
    finally show ?thesis using True by simp
  next
    case False
    have "range_of (a(Suc q := tmp)) b (Suc (Suc q)) = range_of a b (Suc q) @ [tmp]"
      using 2 by (simp add: range_of_def)
    moreover have "ins_desc tmp (range_of a b (Suc q)) = range_of a b (Suc q) @ [tmp]"
    proof (cases "Suc q = b")
      case True then show ?thesis by simp
    next
      case F: False
      then have "b \<le> q" using 2 by simp
      then show ?thesis using False F by (simp add: range_of_snoc ins_desc_snoc)
    qed
    ultimately show ?thesis using False by auto
  qed
qed

lemma range_of_upd_outside:
  "i < b \<or> e \<le> i \<Longrightarrow> range_of (a(i := x)) b e = range_of a b e"
  by (rule range_of_cong) auto

lemma mset_range_of_swap_out:
  assumes "k \<le> p" "p < e"
  shows "add_mset (a p) (mset (range_of (a(p := a k)) (Suc k) e)) = mset (range_of a k e)"
proof (cases "p = k")
  case True
  then show ?thesis using assms by (simp add: range_of_cons [of k e])
next
  case False
  then have kp: "Suc k \<le> p" using assms by simp
  have 1: "range_of a k e = a k # range_of a (Suc k) p @ a p # range_of a (Suc p) e"
    using assms kp
    by (simp add: range_of_cons [of k e] range_of_append [of "Suc k" p e] range_of_cons [of p e])
  have 2: "range_of (a(p := a k)) (Suc k) e
             = range_of a (Suc k) p @ a k # range_of a (Suc p) e"
    using assms kp
    by (simp add: range_of_append [of "Suc k" p e] range_of_cons [of p e] range_of_upd_outside)
  show ?thesis by (simp add: 1 2)
qed

lemma pis_step_mset:
  assumes "b \<le> se" "se < p" "p < e"
  shows "mset (range_of (pis_shift (a(p := a (Suc se))) b (a p) (Suc se)) b e)
           = mset (range_of a b e)"
proof -
  let ?a1 = "a(p := a (Suc se))"
  let ?a2 = "pis_shift ?a1 b (a p) (Suc se)"
  have bs: "b \<le> Suc se" using assms by simp
  have "range_of ?a2 b e = range_of ?a2 b (Suc (Suc se)) @ range_of ?a2 (Suc (Suc se)) e"
    using assms by (intro range_of_append) auto
  moreover have "range_of ?a2 b (Suc (Suc se)) = ins_desc (a p) (range_of a b (Suc se))"
    using assms by (simp del: pis_shift.simps add: pis_shift_range [OF bs] range_of_upd_outside)
  moreover have "range_of ?a2 (Suc (Suc se)) e = range_of ?a1 (Suc (Suc se)) e"
    using bs by (intro range_of_cong) (simp del: pis_shift.simps add: pis_shift_outside)
  moreover have "range_of a b e = range_of a b (Suc se) @ range_of a (Suc se) e"
    using assms by (intro range_of_append) auto
  moreover have "add_mset (a p) (mset (range_of ?a1 (Suc (Suc se)) e)) = mset (range_of a (Suc se) e)"
    using assms by (intro mset_range_of_swap_out) auto
  ultimately show ?thesis by (simp add: mset_ins_desc)
qed

lemma pis_loop_inv:
  assumes "b \<le> se" "se < p" "p \<le> e"
    and "descending (range_of a b (Suc se))"
    and "\<forall>i. se < i \<and> i < p \<longrightarrow> value' (a i) < limit"
  shows "\<exists>se'. se' < e \<and> b \<le> se'
     \<and> descending (range_of (pis_loop a b e limit se p) b (Suc se'))
     \<and> (\<forall>i. se' < i \<and> i < e \<longrightarrow> value' (pis_loop a b e limit se p i) < limit)
     \<and> mset (range_of (pis_loop a b e limit se p) b e) = mset (range_of a b e)
     \<and> (\<forall>i. i < b \<or> e \<le> i \<longrightarrow> pis_loop a b e limit se p i = a i)"
  using assms
proof (induction a b e limit se p rule: pis_loop.induct)
  case (1 a b e limit se p)
  show ?case
  proof (cases "p < e")
    case False
    then have "pis_loop a b e limit se p = a" by (simp add: pis_loop.simps)
    moreover have "p = e" using False 1 by simp
    ultimately show ?thesis using 1 by auto
  next
    case True
    show ?thesis
    proof (cases "limit \<le> value' (a p)")
      case False
      then have eq: "pis_loop a b e limit se p = pis_loop a b e limit se (p + 1)"
        using True by (subst pis_loop.simps) simp
      have "\<forall>i. se < i \<and> i < p + 1 \<longrightarrow> value' (a i) < limit"
        using False "1.prems"(5) by (auto simp: less_Suc_eq)
      then show ?thesis
        unfolding eq using "1.IH"(2) [OF True False] "1.prems" True by simp
    next
      case ge: True
      let ?a1 = "a(p := a (se + 1))"
      let ?a2 = "pis_shift ?a1 b (a p) (se + 1)"
      have eq: "pis_loop a b e limit se p = pis_loop ?a2 b e limit (se + 1) (p + 1)"
        using True ge by (subst pis_loop.simps) (simp add: Let_def)
      have bs: "b \<le> Suc se" using "1.prems" by simp
      have bs': "b \<le> se + 1" using "1.prems" by simp
      have sp: "se + 1 < p + 1" using "1.prems" by simp
      have pe: "p + 1 \<le> e" using True by simp
      have d: "descending (range_of ?a2 b (Suc (se + 1)))"
        using "1.prems"
        by (simp del: pis_shift.simps add: pis_shift_range [OF bs] range_of_upd_outside descending_ins_desc)
      have v: "\<forall>i. se + 1 < i \<and> i < p + 1 \<longrightarrow> value' (?a2 i) < limit"
        using "1.prems"(5) "1.prems"(2) bs
        by (auto simp del: pis_shift.simps simp: pis_shift_outside less_Suc_eq)
      have out: "\<And>i. i < b \<or> e \<le> i \<Longrightarrow> ?a2 i = a i"
        using "1.prems" True bs by (auto simp del: pis_shift.simps simp: pis_shift_outside)
      have m: "mset (range_of ?a2 b e) = mset (range_of a b e)"
        using pis_step_mset [of b se p e a] "1.prems" True by simp
      from "1.IH"(1) [OF True ge refl refl refl bs' sp pe d v]
      obtain se' where "se' < e" "b \<le> se'"
        "descending (range_of (pis_loop ?a2 b e limit (se + 1) (p + 1)) b (Suc se'))"
        "\<forall>i. se' < i \<and> i < e \<longrightarrow> value' (pis_loop ?a2 b e limit (se + 1) (p + 1) i) < limit"
        "mset (range_of (pis_loop ?a2 b e limit (se + 1) (p + 1)) b e) = mset (range_of ?a2 b e)"
        "\<forall>i. i < b \<or> e \<le> i \<longrightarrow> pis_loop ?a2 b e limit (se + 1) (p + 1) i = ?a2 i"
        by blast
      then show ?thesis unfolding eq using m out by auto
    qed
  qed
qed

lemma descending_Cons:
  "descending (x # xs) \<longleftrightarrow> (\<forall>y\<in>set xs. value' y \<le> value' x) \<and> descending xs"
  by (simp add: descending_def)

lemma descending_take: "descending xs \<Longrightarrow> descending (take k xs)"
  unfolding descending_def by (rule sorted_wrt_take)

lemma descending_filter_takeWhile:
  "descending xs \<Longrightarrow>
   filter (\<lambda>x. limit \<le> value' x) xs = takeWhile (\<lambda>x. limit \<le> value' x) xs"
proof (induction xs)
  case Nil
  show ?case by simp
next
  case (Cons x xs)
  show ?case
  proof (cases "limit \<le> value' x")
    case True
    with Cons show ?thesis by (simp add: descending_Cons)
  next
    case False
    with Cons.prems have "\<forall>y\<in>set xs. \<not> limit \<le> value' y"
      by (auto simp: descending_Cons)
    then have "filter (\<lambda>x. limit \<le> value' x) xs = []" by (simp add: filter_empty_conv)
    with False show ?thesis by simp
  qed
qed

lemma descending_prefix_split:
  assumes d: "descending r" and t: "\<forall>x\<in>set t. value' x < limit"
    and k: "k = length (filter (\<lambda>x. limit \<le> value' x) (r @ t))"
  shows "descending (take k (r @ t))"
    and "\<forall>x\<in>set (take k (r @ t)). limit \<le> value' x"
    and "\<forall>x\<in>set (drop k (r @ t)). value' x < limit"
proof -
  let ?P = "\<lambda>x. limit \<le> value' x"
  have ft: "filter ?P t = []" using t by (auto simp: filter_empty_conv)
  have fr: "filter ?P r = takeWhile ?P r" by (rule descending_filter_takeWhile [OF d])
  have "filter ?P (r @ t) = takeWhile ?P r" by (simp only: filter_append ft fr append_Nil2)
  then have k': "k = length (takeWhile ?P r)" by (simp only: k)
  have kr: "k \<le> length r" unfolding k' by (rule length_takeWhile_le)
  have "take k (r @ t) = take k r" using kr by simp
  also have "\<dots> = takeWhile ?P r" unfolding k' by (rule takeWhile_eq_take [symmetric])
  finally have tk: "take k (r @ t) = takeWhile ?P r" .
  have "drop k (r @ t) = drop k r @ t" using kr by simp
  also have "drop k r = dropWhile ?P r" unfolding k' by (rule dropWhile_eq_drop [symmetric])
  finally have dk: "drop k (r @ t) = dropWhile ?P r @ t" .
  have tw: "filter ?P (takeWhile ?P r) = takeWhile ?P r"
    by (rule filter_True) (auto dest: set_takeWhileD)
  have "filter ?P (takeWhile ?P r @ dropWhile ?P r) = takeWhile ?P r"
    by (simp only: takeWhile_dropWhile_id fr)
  then have "takeWhile ?P r @ filter ?P (dropWhile ?P r) = takeWhile ?P r"
    by (simp only: filter_append tw)
  then have "filter ?P (dropWhile ?P r) = []"
    by (simp only: append_self_conv)
  then have "\<forall>x\<in>set (dropWhile ?P r). \<not> limit \<le> value' x"
    by (simp only: filter_empty_conv)
  then have dw: "\<forall>x\<in>set (dropWhile ?P r). value' x < limit"
    by (simp only: not_le)
  have "descending (take k r)" by (rule descending_take [OF d])
  then show "descending (take k (r @ t))" using kr by simp
  show "\<forall>x\<in>set (take k (r @ t)). limit \<le> value' x"
    unfolding tk by (auto dest: set_takeWhileD)
  show "\<forall>x\<in>set (drop k (r @ t)). value' x < limit"
    unfolding dk using dw t by auto
qed

lemma partial_insertion_sort_props:
  fixes a b e limit
  defines "a' \<equiv> partial_insertion_sort a b e limit"
  defines "k \<equiv> length (filter (\<lambda>x. limit \<le> value' x) (range_of a b e))"
  shows "mset (range_of a' b e) = mset (range_of a b e)"
    and "descending (take k (range_of a' b e))"
    and "\<forall>x\<in>set (take k (range_of a' b e)). limit \<le> value' x"
    and "\<forall>x\<in>set (drop k (range_of a' b e)). value' x < limit"
    and "\<forall>i. i < b \<or> e \<le> i \<longrightarrow> a' i = a i"
proof -
  have all: "mset (range_of a' b e) = mset (range_of a b e)
    \<and> descending (take k (range_of a' b e))
    \<and> (\<forall>x\<in>set (take k (range_of a' b e)). limit \<le> value' x)
    \<and> (\<forall>x\<in>set (drop k (range_of a' b e)). value' x < limit)
    \<and> (\<forall>i. i < b \<or> e \<le> i \<longrightarrow> a' i = a i)"
  proof (cases "b < e")
    case False
    then have "a' = a"
      by (simp add: a'_def partial_insertion_sort_def pis_loop.simps)
    moreover have "range_of a b e = []" using False by simp
    ultimately show ?thesis by (simp add: k_def descending_def)
  next
    case True
    have d0: "descending (range_of a b (Suc b))"
      by (simp add: range_of_def descending_def)
    have "\<exists>se'. se' < e \<and> b \<le> se'
       \<and> descending (range_of (pis_loop a b e limit b (b + 1)) b (Suc se'))
       \<and> (\<forall>i. se' < i \<and> i < e \<longrightarrow> value' (pis_loop a b e limit b (b + 1) i) < limit)
       \<and> mset (range_of (pis_loop a b e limit b (b + 1)) b e) = mset (range_of a b e)
       \<and> (\<forall>i. i < b \<or> e \<le> i \<longrightarrow> pis_loop a b e limit b (b + 1) i = a i)"
    proof (rule pis_loop_inv)
      show "b \<le> b" by simp
      show "b < b + 1" by simp
      show "b + 1 \<le> e" using True by simp
      show "descending (range_of a b (Suc b))" by (rule d0)
      show "\<forall>i. b < i \<and> i < b + 1 \<longrightarrow> value' (a i) < limit" by simp
    qed
    then obtain se where se: "se < e" "b \<le> se"
      and d: "descending (range_of a' b (Suc se))"
      and t: "\<forall>i. se < i \<and> i < e \<longrightarrow> value' (a' i) < limit"
      and m: "mset (range_of a' b e) = mset (range_of a b e)"
      and out: "\<forall>i. i < b \<or> e \<le> i \<longrightarrow> a' i = a i"
      unfolding a'_def partial_insertion_sort_def by blast
    have split: "range_of a' b e = range_of a' b (Suc se) @ range_of a' (Suc se) e"
      using se by (intro range_of_append) auto
    have t': "\<forall>x\<in>set (range_of a' (Suc se) e). value' x < limit"
      using t by (auto simp: set_range_of)
    have "size (filter_mset (\<lambda>x. limit \<le> value' x) (mset (range_of a' b e)))
            = size (filter_mset (\<lambda>x. limit \<le> value' x) (mset (range_of a b e)))"
      by (simp only: m)
    then have k: "k = length (filter (\<lambda>x. limit \<le> value' x)
                       (range_of a' b (Suc se) @ range_of a' (Suc se) e))"
      unfolding k_def split [symmetric] by (simp only: mset_filter [symmetric] size_mset)
    note r = descending_prefix_split [OF d t' k, folded split]
    show ?thesis
      using r m out by blast
  qed
  from all show "mset (range_of a' b e) = mset (range_of a b e)"
    and "descending (take k (range_of a' b e))"
    and "\<forall>x\<in>set (take k (range_of a' b e)). limit \<le> value' x"
    and "\<forall>x\<in>set (drop k (range_of a' b e)). value' x < limit"
    and "\<forall>i. i < b \<or> e \<le> i \<longrightarrow> a' i = a i"
    by blast+
qed


subsection \<open>generate and score, in the array\<close>

lemma write_moves_outside:
  "j < i \<or> i + length ms \<le> j \<Longrightarrow> write_moves a i ms j = a j"
  by (induction a i ms rule: write_moves.induct) auto

lemma write_moves_inside:
  "i \<le> j \<Longrightarrow> j < i + length ms \<Longrightarrow>
   write_moves a i ms j = (a j)\<lparr>move := ms ! (j - i)\<rparr>"
proof (induction a i ms rule: write_moves.induct)
  case (1 a i)
  then show ?case by simp
next
  case (2 a i m ms)
  show ?case
  proof (cases "j = i")
    case True
    then show ?thesis by (simp add: write_moves_outside)
  next
    case False
    then have "Suc i \<le> j" using 2 by simp
    moreover have "j < Suc i + length ms" using 2 by simp
    ultimately have "write_moves (a(i := (a i)\<lparr>move := m\<rparr>)) (Suc i) ms j
        = ((a(i := (a i)\<lparr>move := m\<rparr>)) j)\<lparr>move := ms ! (j - Suc i)\<rparr>"
      by (rule "2.IH")
    moreover have "(m # ms) ! (j - i) = ms ! (j - Suc i)"
      using \<open>Suc i \<le> j\<close> by (simp add: nth_Cons')
    ultimately show ?thesis using False by simp
  qed
qed

lemma range_of_write_moves:
  "range_of (write_moves a i ms) i (i + length ms)
     = map (\<lambda>(x, m). x\<lparr>move := m\<rparr>) (zip (range_of a i (i + length ms)) ms)"
  by (rule nth_equalityI) (simp_all add: write_moves_inside)

lemma score_loop_outside:
  "j < i \<or> e \<le> j \<Longrightarrow> score_loop f a i e j = a j"
proof (induction f a i e rule: score_loop.induct)
  case (1 f a i e)
  show ?case
  proof (cases "i < e")
    case False
    then show ?thesis by (subst score_loop.simps) simp
  next
    case True
    let ?a1 = "a(i := (a i)\<lparr>value' := f (move (a i))\<rparr>)"
    have "score_loop f a i e j = score_loop f ?a1 (Suc i) e j"
      using True by (subst score_loop.simps) simp
    also have "\<dots> = ?a1 j"
      using "1.prems" by (intro "1.IH" [OF True]) auto
    also have "\<dots> = a j" using "1.prems" True by auto
    finally show ?thesis .
  qed
qed

lemma score_loop_inside:
  "i \<le> j \<Longrightarrow> j < e \<Longrightarrow> score_loop f a i e j = (a j)\<lparr>value' := f (move (a j))\<rparr>"
proof (induction f a i e rule: score_loop.induct)
  case (1 f a i e)
  have ie: "i < e" using 1 by simp
  let ?a1 = "a(i := (a i)\<lparr>value' := f (move (a i))\<rparr>)"
  have step: "score_loop f a i e j = score_loop f ?a1 (Suc i) e j"
    using ie by (subst score_loop.simps) simp
  show ?case
  proof (cases "j = i")
    case True
    have "score_loop f ?a1 (Suc i) e j = ?a1 j"
      using True by (intro score_loop_outside) simp
    with step True show ?thesis by simp
  next
    case False
    then have "Suc i \<le> j" using 1 by simp
    then have "score_loop f ?a1 (Suc i) e j = (?a1 j)\<lparr>value' := f (move (?a1 j))\<rparr>"
      using "1.prems" by (intro "1.IH" [OF ie]) auto
    with step False show ?thesis by simp
  qed
qed

lemma range_of_score_loop:
  "range_of (score_loop f a i e) i e = map (\<lambda>x. x\<lparr>value' := f (move x)\<rparr>) (range_of a i e)"
  by (rule nth_equalityI) (simp_all add: score_loop_inside)

lemma scored_generated:
  "range_of (score_loop f (write_moves a i ms) i (i + length ms)) i (i + length ms)
     = map (\<lambda>m. \<lparr>move = m, value' = f m\<rparr>) ms"
  by (rule nth_equalityI) (simp_all add: score_loop_inside write_moves_inside)

subsection \<open>The initialisation stages in closed form\<close>

lemma score_value_cong:
  "pos s' = pos s \<Longrightarrow> mainHistory s' = mainHistory s \<Longrightarrow> score_value X T s' = score_value X T s"
  by (rule ext) (simp add: score_value_def)

lemma generate_at_Moves:
  "generate_at X T (Moves i) s =
     (Moves (i + length (generate X T (pos s))),
      s\<lparr>moves := write_moves (moves s) i (generate X T (pos s))\<rparr>)"
  by (simp add: generate_at_def)

lemma score_Moves:
  "cur s = Moves i \<Longrightarrow> endMoves s = Moves j \<Longrightarrow>
   score X T s = s\<lparr>moves := score_loop (score_value X T s) (moves s) i j\<rparr>"
  by (simp add: score_def)

lemma sort_range_Moves:
  "sort_range (Moves i) (Moves j) l s = s\<lparr>moves := partial_insertion_sort (moves s) i j l\<rparr>"
  by (simp add: sort_range_def)

lemma score_value_upd [simp]:
  "score_value X T (s\<lparr>moves := a\<rparr>) = score_value X T s"
  "score_value X T (s\<lparr>refutations := a\<rparr>) = score_value X T s"
  "score_value X T (s\<lparr>cur := p\<rparr>) = score_value X T s"
  "score_value X T (s\<lparr>endMoves := p\<rparr>) = score_value X T s"
  "score_value X T (s\<lparr>endBadCaptures := p\<rparr>) = score_value X T s"
  "score_value X T (s\<lparr>beginBadQuiets := p\<rparr>) = score_value X T s"
  "score_value X T (s\<lparr>endBadQuiets := p\<rparr>) = score_value X T s"
  "score_value X T (s\<lparr>stage := n\<rparr>) = score_value X T s"
  by (rule score_value_cong; simp)+

lemma quiet_init_Moves:
  assumes "endBadCaptures s = Moves b"
  shows "quiet_init X s =
     s\<lparr>cur := Moves b,
       endMoves := Moves (b + length (generate X QUIETS (pos s))),
       beginBadQuiets := Moves (b + length (generate X QUIETS (pos s))),
       endBadQuiets := Moves (b + length (generate X QUIETS (pos s))),
       moves := partial_insertion_sort
         (score_loop (score_value X QUIETS s)
            (write_moves (moves s) b (generate X QUIETS (pos s)))
            b (b + length (generate X QUIETS (pos s))))
         b (b + length (generate X QUIETS (pos s))) (quiet_threshold (depth s))\<rparr>"
  unfolding quiet_init_def
  by (simp add: assms Let_def generate_at_Moves score_Moves sort_range_Moves)

lemma capture_init_Moves:
  "capture_init X s =
     s\<lparr>cur := Moves 0,
       endBadCaptures := Moves 0,
       endMoves := Moves (length (generate X CAPTURES (pos s))),
       moves := partial_insertion_sort
         (score_loop (score_value X CAPTURES s)
            (write_moves (moves s) 0 (generate X CAPTURES (pos s)))
            0 (length (generate X CAPTURES (pos s))))
         0 (length (generate X CAPTURES (pos s))) INT_MIN,
       stage := stage s + 1\<rparr>"
  unfolding capture_init_def next_stage_def
  by (simp add: Let_def generate_at_Moves score_Moves sort_range_Moves)

lemma evasion_init_Moves:
  "evasion_init X s =
     s\<lparr>cur := Moves 0,
       endMoves := Moves (length (generate X EVASIONS (pos s))),
       moves := score_loop (score_value X EVASIONS s)
            (write_moves (moves s) 0 (generate X EVASIONS (pos s)))
            0 (length (generate X EVASIONS (pos s))),
       stage := stage s + 1\<rparr>"
  unfolding evasion_init_def next_stage_def
  by (simp add: Let_def generate_at_Moves score_Moves)

lemma qcheck_init_Moves:
  "qcheck_init X s =
     s\<lparr>cur := Moves 0,
       endMoves := Moves (length (generate X QUIET_CHECKS (pos s))),
       moves := write_moves (moves s) 0 (generate X QUIET_CHECKS (pos s)),
       stage := stage s + 1\<rparr>"
  unfolding qcheck_init_def next_stage_def
  by (simp add: Let_def generate_at_Moves)

subsection \<open>What select returns and keeps\<close>

lemma ptr_sub_add [simp]: "ptr_sub (ptr_add p n) n = p"
  by (cases p) simp_all

lemma idx_ptr_add [simp]: "idx (ptr_add p n) = idx p + n"
  by (cases p) simp_all

lemma same_array_ptr_add [simp]:
  "same_array (ptr_add p n) q = same_array p q"
  "same_array q (ptr_add p n) = same_array q p"
  by (cases p; cases q; simp)+

lemma same_array_refl [simp]: "same_array p p"
  by (cases p) simp_all

lemma deref_cur_upd [simp]: "deref (s\<lparr>cur := p\<rparr>) q = deref s q"
  by (cases q) (simp_all add: deref_def)

lemma advance_fields [simp]:
  "cur (advance s) = ptr_add (cur s) 1"
  "endMoves (advance s) = endMoves s"
  "endBadCaptures (advance s) = endBadCaptures s"
  "beginBadQuiets (advance s) = beginBadQuiets s"
  "endBadQuiets (advance s) = endBadQuiets s"
  "stage (advance s) = stage s"
  "ttMove (advance s) = ttMove s"
  "pos (advance s) = pos s"
  "depth (advance s) = depth s"
  "threshold (advance s) = threshold s"
  "mainHistory (advance s) = mainHistory s"
  "moves (advance s) = moves s"
  "refutations (advance s) = refutations s"
  "deref (advance s) q = deref s q"
  by (simp_all add: advance_def)

lemma filter_apply_True: "fst (filter_apply P s) \<Longrightarrow> snd (filter_apply P s) = s"
  by (cases P) (simp_all split: if_splits)

lemma select_test_found:
  assumes "fst (select_test T P s)"
  shows "move (deref (snd (select_test T P s)) (cur s)) \<noteq> ttMove s"
proof -
  let ?s1 = "if T = Best then swap_best s else s"
  have t: "select_test T P s =
      (if move (deref ?s1 (cur ?s1)) \<noteq> ttMove ?s1 then filter_apply P ?s1 else (False, ?s1))"
    by (simp add: select_test_def Let_def)
  have ne: "move (deref ?s1 (cur ?s1)) \<noteq> ttMove ?s1"
    using assms unfolding t by (simp split: if_splits)
  then have "fst (filter_apply P ?s1)" using assms unfolding t by (simp split: if_splits)
  then have "snd (filter_apply P ?s1) = ?s1" by (rule filter_apply_True)
  then have "snd (select_test T P s) = ?s1" unfolding t using ne by simp
  then show ?thesis using ne by (simp split: if_splits)
qed

lemma select_done:
  "\<not> ptr_less (cur s) (endMoves s) \<Longrightarrow> select T P s = (Move_none, s)"
  by (subst select.simps) simp

lemma select_found:
  "ptr_less (cur s) (endMoves s) \<Longrightarrow> fst (select_test T P s) \<Longrightarrow>
   select T P s = (move (deref (snd (select_test T P s)) (cur s)), advance (snd (select_test T P s)))"
  by (subst select.simps) simp

lemma select_skip:
  "ptr_less (cur s) (endMoves s) \<Longrightarrow> \<not> fst (select_test T P s) \<Longrightarrow>
   select T P s = select T P (advance (snd (select_test T P s)))"
  by (subst select.simps) simp

lemma select_cases [case_names exhausted found skip]:
  assumes "\<And>s. \<not> ptr_less (cur s) (endMoves s) \<Longrightarrow> Q s"
    and "\<And>s. ptr_less (cur s) (endMoves s) \<Longrightarrow> fst (select_test T P s) \<Longrightarrow> Q s"
    and "\<And>s. ptr_less (cur s) (endMoves s) \<Longrightarrow> \<not> fst (select_test T P s) \<Longrightarrow>
           Q (advance (snd (select_test T P s))) \<Longrightarrow> Q s"
  shows "Q s"
proof -
  have "T' = T \<longrightarrow> P' = P \<longrightarrow> Q s" for T' P'
  proof (induction T' P' s rule: select.induct)
    case (1 T' P' s)
    show ?case
    proof (intro impI)
      assume T: "T' = T" and P: "P' = P"
      show "Q s"
      proof (cases "ptr_less (cur s) (endMoves s)")
        case False
        then show ?thesis by (rule assms(1))
      next
        case True
        show ?thesis
        proof (cases "fst (select_test T P s)")
          case ok: True
          show ?thesis by (rule assms(2) [OF True ok])
        next
          case False
          have "Q (advance (snd (select_test T P s)))"
            using "1.IH" [OF True] False T P by simp
          then show ?thesis by (rule assms(3) [OF True False])
        qed
      qed
    qed
  qed
  then show ?thesis by simp
qed

text \<open>What every call of \<open>select\<close> returns: no move, or a move other than the hash
  move, which is then the one before \<^verbatim>\<open>cur\<close>.\<close>

lemma select_returns:
  "fst (select T P s) = Move_none
   \<or> (fst (select T P s) \<noteq> ttMove s
      \<and> move (deref (snd (select T P s)) (ptr_sub (cur (snd (select T P s))) 1))
          = fst (select T P s))"
proof (induction s rule: select_cases [where T = T and P = P])
  case (exhausted s)
  then show ?case by (simp add: select_done)
next
  case (found s)
  then show ?case using select_test_found [of T P s] by (simp add: select_found)
next
  case (skip s)
  then show ?case by (simp add: select_skip)
qed

lemma select_ttMove [simp]: "ttMove (snd (select T P s)) = ttMove s"
  by (induction s rule: select_cases [where T = T and P = P])
    (simp_all add: select_done select_found select_skip)

lemma select_stage [simp]: "stage (snd (select T P s)) = stage s"
  by (induction s rule: select_cases [where T = T and P = P])
    (simp_all add: select_done select_found select_skip)

lemma select_pos [simp]: "pos (snd (select T P s)) = pos s"
  by (induction s rule: select_cases [where T = T and P = P])
    (simp_all add: select_done select_found select_skip)

lemma select_depth [simp]: "depth (snd (select T P s)) = depth s"
  by (induction s rule: select_cases [where T = T and P = P])
    (simp_all add: select_done select_found select_skip)

lemma select_threshold [simp]: "threshold (snd (select T P s)) = threshold s"
  by (induction s rule: select_cases [where T = T and P = P])
    (simp_all add: select_done select_found select_skip)

lemma select_endMoves [simp]: "endMoves (snd (select T P s)) = endMoves s"
  by (induction s rule: select_cases [where T = T and P = P])
    (simp_all add: select_done select_found select_skip)

lemma select_beginBadQuiets [simp]: "beginBadQuiets (snd (select T P s)) = beginBadQuiets s"
  by (induction s rule: select_cases [where T = T and P = P])
    (simp_all add: select_done select_found select_skip)

lemma select_endBadQuiets [simp]: "endBadQuiets (snd (select T P s)) = endBadQuiets s"
  by (induction s rule: select_cases [where T = T and P = P])
    (simp_all add: select_done select_found select_skip)

lemma select_mainHistory [simp]: "mainHistory (snd (select T P s)) = mainHistory s"
  by (induction s rule: select_cases [where T = T and P = P])
    (simp_all add: select_done select_found select_skip)

subsection \<open>Every stage keeps the hash move out\<close>

lemma next_stage_fields [simp]:
  "stage (next_stage s) = stage s + 1"
  "cur (next_stage s) = cur s"
  "endMoves (next_stage s) = endMoves s"
  "endBadCaptures (next_stage s) = endBadCaptures s"
  "beginBadQuiets (next_stage s) = beginBadQuiets s"
  "endBadQuiets (next_stage s) = endBadQuiets s"
  "ttMove (next_stage s) = ttMove s"
  "pos (next_stage s) = pos s"
  "depth (next_stage s) = depth s"
  "threshold (next_stage s) = threshold s"
  "mainHistory (next_stage s) = mainHistory s"
  "moves (next_stage s) = moves s"
  "refutations (next_stage s) = refutations s"
  by (simp_all add: next_stage_def)

lemma refutation_init_fields [simp]:
  "stage (refutation_init s) = stage s"
  "endBadCaptures (refutation_init s) = endBadCaptures s"
  "beginBadQuiets (refutation_init s) = beginBadQuiets s"
  "endBadQuiets (refutation_init s) = endBadQuiets s"
  "ttMove (refutation_init s) = ttMove s"
  "pos (refutation_init s) = pos s"
  "depth (refutation_init s) = depth s"
  "threshold (refutation_init s) = threshold s"
  "mainHistory (refutation_init s) = mainHistory s"
  "moves (refutation_init s) = moves s"
  "refutations (refutation_init s) = refutations s"
  by (simp_all add: refutation_init_def Let_def)

lemma quiet_init_fields [simp]:
  "stage (quiet_init X s) = stage s"
  "endBadCaptures (quiet_init X s) = endBadCaptures s"
  "ttMove (quiet_init X s) = ttMove s"
  "pos (quiet_init X s) = pos s"
  "depth (quiet_init X s) = depth s"
  "threshold (quiet_init X s) = threshold s"
  "mainHistory (quiet_init X s) = mainHistory s"
  by (simp_all add: quiet_init_def Let_def split_beta)

lemma capture_init_fields [simp]:
  "ttMove (capture_init X s) = ttMove s"
  "pos (capture_init X s) = pos s"
  "depth (capture_init X s) = depth s"
  "threshold (capture_init X s) = threshold s"
  "mainHistory (capture_init X s) = mainHistory s"
  "refutations (capture_init X s) = refutations s"
  by (simp_all add: capture_init_Moves)

lemma evasion_init_fields [simp]:
  "stage (evasion_init X s) = stage s + 1"
  "ttMove (evasion_init X s) = ttMove s"
  "pos (evasion_init X s) = pos s"
  "depth (evasion_init X s) = depth s"
  "threshold (evasion_init X s) = threshold s"
  "mainHistory (evasion_init X s) = mainHistory s"
  by (simp_all add: evasion_init_Moves)

lemma qcheck_init_fields [simp]:
  "stage (qcheck_init X s) = stage s + 1"
  "ttMove (qcheck_init X s) = ttMove s"
  "pos (qcheck_init X s) = pos s"
  "depth (qcheck_init X s) = depth s"
  "threshold (qcheck_init X s) = threshold s"
  "mainHistory (qcheck_init X s) = mainHistory s"
  by (simp_all add: qcheck_init_Moves)

lemma step_ok_select: "step_ok 0 s (select T P s)"
  using select_returns [of T P s] by (auto simp: step_ok_def)

lemma step_ok_prev:
  "m \<noteq> Move_none \<Longrightarrow> select T P s = (m, s1) \<Longrightarrow>
   step_ok k s (move (deref s1 (ptr_sub (cur s1) 1)), s1)"
  using select_returns [of T P s] select_ttMove [of T P s] select_pos [of T P s]
    select_stage [of T P s]
  by (auto simp: step_ok_def)

lemma step_ok_via:
  assumes "step_ok k t r" "ttMove t = ttMove s" "pos t = pos s"
    "stage s \<le> stage t" "stage t + k \<le> stage s + k'"
  shows "step_ok k' s r"
  using assms by (auto simp: step_ok_def)

lemma step_ok_BAD_QUIET: "step_ok 0 s (case_BAD_QUIET b s)"
  using step_ok_select [of s Next NotRefutation]
  by (simp add: case_BAD_QUIET_def step_ok_def)

lemma step_ok_BAD_CAPTURE: "step_ok 1 s (case_BAD_CAPTURE b s)"
proof -
  obtain m s1 where sel: "select Next Always s = (m, s1)" by (cases "select Next Always s")
  have f: "ttMove s1 = ttMove s" "pos s1 = pos s" "stage s1 = stage s"
    using select_ttMove [of Next Always s] select_pos [of Next Always s]
      select_stage [of Next Always s] by (simp_all add: sel)
  show ?thesis
  proof (cases "m = Move_none")
    case False
    then show ?thesis
      using step_ok_prev [OF False sel] by (simp add: case_BAD_CAPTURE_def sel)
  next
    case True
    let ?t = "next_stage (s1\<lparr>cur := beginBadQuiets s1, endMoves := endBadQuiets s1\<rparr>)"
    have "step_ok 1 s (case_BAD_QUIET b ?t)"
      by (rule step_ok_via [OF step_ok_BAD_QUIET]) (simp_all add: f)
    then show ?thesis by (simp add: case_BAD_CAPTURE_def sel True)
  qed
qed

lemma step_ok_GOOD_QUIET: "step_ok 2 s (case_GOOD_QUIET b s)"
proof -
  obtain m s1 where sel:
    "(if \<not> b then select Next NotRefutation s else (Move_none, s)) = (m, s1)"
    by (cases "if \<not> b then select Next NotRefutation s else (Move_none, s)")
  have s1: "s1 = (if \<not> b then snd (select Next NotRefutation s) else s)"
    using sel by (auto split: if_splits)
  have f: "ttMove s1 = ttMove s" "pos s1 = pos s" "stage s1 = stage s"
    by (simp_all add: s1)
  let ?prev = "deref s1 (ptr_sub (cur s1) 1)"
  show ?thesis
  proof (cases "\<not> b \<and> m \<noteq> Move_none
      \<and> (value' ?prev > - 8000 \<or> value' ?prev \<le> quiet_threshold (depth s1))")
    case True
    then have "select Next NotRefutation s = (m, s1)" using sel by simp
    from step_ok_prev [OF _ this, of 2] True
    have "step_ok 2 s (move ?prev, s1)" by simp
    then show ?thesis
      unfolding case_GOOD_QUIET_def sel using True by (simp add: Let_def)
  next
    case False
    let ?s2 = "if \<not> b \<and> m \<noteq> Move_none then s1\<lparr>beginBadQuiets := ptr_sub (cur s1) 1\<rparr> else s1"
    let ?t = "next_stage (?s2\<lparr>cur := Moves 0, endMoves := endBadCaptures ?s2\<rparr>)"
    have "step_ok 2 s (case_BAD_CAPTURE b ?t)"
      by (rule step_ok_via [OF step_ok_BAD_CAPTURE]) (simp_all add: f)
    moreover have "case_GOOD_QUIET b s = case_BAD_CAPTURE b ?t"
      unfolding case_GOOD_QUIET_def sel using False by (auto simp: Let_def)
    ultimately show ?thesis by simp
  qed
qed

lemma step_ok_QUIET_INIT: "step_ok 3 s (case_QUIET_INIT X b s)"
  unfolding case_QUIET_INIT_def
  by (rule step_ok_via [OF step_ok_GOOD_QUIET]) simp_all

lemma step_ok_REFUTATION: "step_ok 4 s (case_REFUTATION X b s)"
proof -
  obtain m s1 where sel: "select Next Refutation s = (m, s1)"
    by (cases "select Next Refutation s")
  have f: "ttMove s1 = ttMove s" "pos s1 = pos s" "stage s1 = stage s"
    using select_ttMove [of Next Refutation s] select_pos [of Next Refutation s]
      select_stage [of Next Refutation s] by (simp_all add: sel)
  show ?thesis
  proof (cases "m = Move_none")
    case False
    then show ?thesis
      using step_ok_prev [OF False sel] by (simp add: case_REFUTATION_def sel)
  next
    case True
    have "step_ok 4 s (case_QUIET_INIT X b (next_stage s1))"
      by (rule step_ok_via [OF step_ok_QUIET_INIT]) (simp_all add: f)
    then show ?thesis by (simp add: case_REFUTATION_def sel True)
  qed
qed

lemma step_ok_GOOD_CAPTURE: "step_ok 5 s (case_GOOD_CAPTURE X b s)"
proof -
  obtain m s1 where sel: "select Next GoodCapture s = (m, s1)"
    by (cases "select Next GoodCapture s")
  have f: "ttMove s1 = ttMove s" "pos s1 = pos s" "stage s1 = stage s"
    using select_ttMove [of Next GoodCapture s] select_pos [of Next GoodCapture s]
      select_stage [of Next GoodCapture s] by (simp_all add: sel)
  show ?thesis
  proof (cases "m = Move_none")
    case False
    then show ?thesis
      using step_ok_prev [OF False sel] by (simp add: case_GOOD_CAPTURE_def sel)
  next
    case True
    have "step_ok 5 s (case_REFUTATION X b (next_stage (refutation_init s1)))"
      by (rule step_ok_via [OF step_ok_REFUTATION]) (simp_all add: f)
    then show ?thesis by (simp add: case_GOOD_CAPTURE_def sel True)
  qed
qed

lemma step_ok_EVASION: "step_ok 0 s (case_EVASION s)"
  unfolding case_EVASION_def by (rule step_ok_select)

lemma step_ok_EVASION_INIT: "step_ok 1 s (case_EVASION_INIT X s)"
  unfolding case_EVASION_INIT_def
  by (rule step_ok_via [OF step_ok_EVASION]) simp_all

lemma step_ok_PROBCUT: "step_ok 0 s (case_PROBCUT s)"
  unfolding case_PROBCUT_def by (rule step_ok_select)

lemma step_ok_QCHECK: "step_ok 0 s (case_QCHECK s)"
  unfolding case_QCHECK_def by (rule step_ok_select)

lemma step_ok_QCHECK_INIT: "step_ok 1 s (case_QCHECK_INIT X s)"
  unfolding case_QCHECK_INIT_def
  by (rule step_ok_via [OF step_ok_QCHECK]) simp_all

lemma step_ok_QCAPTURE: "step_ok 2 s (case_QCAPTURE X s)"
proof -
  obtain m s1 where sel: "select Next Always s = (m, s1)" by (cases "select Next Always s")
  have f: "ttMove s1 = ttMove s" "pos s1 = pos s" "stage s1 = stage s"
    using select_ttMove [of Next Always s] select_pos [of Next Always s]
      select_stage [of Next Always s] by (simp_all add: sel)
  show ?thesis
  proof (cases "m = Move_none")
    case False
    then show ?thesis
      using step_ok_prev [OF False sel] by (simp add: case_QCAPTURE_def sel)
  next
    case True
    have "step_ok 2 s (case_QCHECK_INIT X (next_stage s1))"
      by (rule step_ok_via [OF step_ok_QCHECK_INIT]) (simp_all add: f)
    then show ?thesis by (simp add: case_QCAPTURE_def sel True step_ok_def f)
  qed
qed

subsection \<open>next_move, stage by stage\<close>

lemma next_move_TT:
  "is_tt_stage (stage s) \<Longrightarrow> next_move X b s = (ttMove s, next_stage s)"
  by (subst next_move.simps) (simp add: is_tt_stage_def)

lemma next_move_CAPTURE_INIT:
  "stage s = CAPTURE_INIT \<Longrightarrow> next_move X b s = case_GOOD_CAPTURE X b (capture_init X s)"
  by (subst next_move.simps, simp add: stage_defs, subst next_move.simps, simp add: stage_defs)

lemma next_move_PROBCUT_INIT:
  "stage s = PROBCUT_INIT \<Longrightarrow> next_move X b s = case_PROBCUT (capture_init X s)"
  by (subst next_move.simps, simp add: stage_defs, subst next_move.simps, simp add: stage_defs)

lemma next_move_QCAPTURE_INIT:
  "stage s = QCAPTURE_INIT \<Longrightarrow> next_move X b s = case_QCAPTURE X (capture_init X s)"
  by (subst next_move.simps, simp add: stage_defs, subst next_move.simps, simp add: stage_defs)

lemma next_move_GOOD_CAPTURE:
  "stage s = GOOD_CAPTURE \<Longrightarrow> next_move X b s = case_GOOD_CAPTURE X b s"
  by (subst next_move.simps) (simp add: stage_defs)

lemma next_move_REFUTATION:
  "stage s = REFUTATION \<Longrightarrow> next_move X b s = case_REFUTATION X b s"
  by (subst next_move.simps) (simp add: stage_defs)

lemma next_move_QUIET_INIT:
  "stage s = QUIET_INIT \<Longrightarrow> next_move X b s = case_QUIET_INIT X b s"
  by (subst next_move.simps) (simp add: stage_defs)

lemma next_move_GOOD_QUIET:
  "stage s = GOOD_QUIET \<Longrightarrow> next_move X b s = case_GOOD_QUIET b s"
  by (subst next_move.simps) (simp add: stage_defs)

lemma next_move_BAD_CAPTURE:
  "stage s = BAD_CAPTURE \<Longrightarrow> next_move X b s = case_BAD_CAPTURE b s"
  by (subst next_move.simps) (simp add: stage_defs)

lemma next_move_BAD_QUIET:
  "stage s = BAD_QUIET \<Longrightarrow> next_move X b s = case_BAD_QUIET b s"
  by (subst next_move.simps) (simp add: stage_defs)

lemma next_move_EVASION_INIT:
  "stage s = EVASION_INIT \<Longrightarrow> next_move X b s = case_EVASION_INIT X s"
  by (subst next_move.simps) (simp add: stage_defs)

lemma next_move_EVASION:
  "stage s = EVASION \<Longrightarrow> next_move X b s = case_EVASION s"
  by (subst next_move.simps) (simp add: stage_defs)

lemma next_move_PROBCUT:
  "stage s = PROBCUT \<Longrightarrow> next_move X b s = case_PROBCUT s"
  by (subst next_move.simps) (simp add: stage_defs)

lemma next_move_QCAPTURE:
  "stage s = QCAPTURE \<Longrightarrow> next_move X b s = case_QCAPTURE X s"
  by (subst next_move.simps) (simp add: stage_defs)

lemma next_move_QCHECK_INIT:
  "stage s = QCHECK_INIT \<Longrightarrow> next_move X b s = case_QCHECK_INIT X s"
  by (subst next_move.simps) (simp add: stage_defs)

lemma next_move_QCHECK:
  "stage s = QCHECK \<Longrightarrow> next_move X b s = case_QCHECK s"
  by (subst next_move.simps) (simp add: stage_defs)

lemma next_move_other:
  "QCHECK < stage s \<Longrightarrow> next_move X b s = (Move_none, s)"
  by (subst next_move.simps) (simp add: stage_defs)

lemma stage_cases:
  fixes n :: nat
  obtains "is_tt_stage n" | "n = CAPTURE_INIT" | "n = PROBCUT_INIT" | "n = QCAPTURE_INIT"
  | "n = GOOD_CAPTURE" | "n = REFUTATION" | "n = QUIET_INIT" | "n = GOOD_QUIET"
  | "n = BAD_CAPTURE" | "n = BAD_QUIET" | "n = EVASION_INIT" | "n = EVASION" | "n = PROBCUT"
  | "n = QCAPTURE" | "n = QCHECK_INIT" | "n = QCHECK" | "QCHECK < n"
proof -
  have "n = 0 \<or> n = 1 \<or> n = 2 \<or> n = 3 \<or> n = 4 \<or> n = 5 \<or> n = 6 \<or> n = 7 \<or> n = 8
      \<or> n = 9 \<or> n = 10 \<or> n = 11 \<or> n = 12 \<or> n = 13 \<or> n = 14 \<or> n = 15 \<or> n = 16
      \<or> n = 17 \<or> n = 18 \<or> 18 < n"
    by arith
  then show ?thesis
    using that unfolding is_tt_stage_def stage_defs by blast
qed

lemma step_ok_not_tt:
  "step_ok k s r \<Longrightarrow> stage s = n \<Longrightarrow> (\<forall>j\<le>k. \<not> is_tt_stage (n + j)) \<Longrightarrow>
   \<not> is_tt_stage (stage (snd r))"
proof -
  assume a: "step_ok k s r" "stage s = n" "\<forall>j\<le>k. \<not> is_tt_stage (n + j)"
  then have "n \<le> stage (snd r)" "stage (snd r) \<le> n + k" by (auto simp: step_ok_def)
  then obtain j where "stage (snd r) = n + j" "j \<le> k"
    by (metis le_Suc_ex nat_add_left_cancel_le)
  with a(3) show ?thesis by simp
qed

lemma nat_le_cases6: "j \<le> (6::nat) \<Longrightarrow> j = 0 \<or> j = 1 \<or> j = 2 \<or> j = 3 \<or> j = 4 \<or> j = 5 \<or> j = 6"
  by linarith

text \<open>A call that does not start in a hash-move stage returns no move or a move
  other than the hash move, and does not end in a hash-move stage.\<close>

lemma next_move_not_tt:
  assumes "\<not> is_tt_stage (stage s)"
  shows "(fst (next_move X b s) = Move_none \<or> fst (next_move X b s) \<noteq> ttMove s)
    \<and> ttMove (snd (next_move X b s)) = ttMove s
    \<and> pos (snd (next_move X b s)) = pos s
    \<and> \<not> is_tt_stage (stage (snd (next_move X b s)))"
proof -
  have ok: "\<exists>k t. step_ok k t (next_move X b s) \<and> ttMove t = ttMove s \<and> pos t = pos s
      \<and> (\<forall>j\<le>k. \<not> is_tt_stage (stage t + j))"
  proof (cases "stage s" rule: stage_cases)
    case 1
    with assms show ?thesis by simp
  next
    case 2
    have "step_ok 5 (capture_init X s) (next_move X b s)"
      unfolding next_move_CAPTURE_INIT [OF 2] by (rule step_ok_GOOD_CAPTURE)
    moreover have "\<forall>j\<le>5. \<not> is_tt_stage (stage (capture_init X s) + j)"
      using 2 by (auto simp: is_tt_stage_def stage_defs)
    ultimately show ?thesis using capture_init_fields by blast
  next
    case 3
    have "step_ok 0 (capture_init X s) (next_move X b s)"
      unfolding next_move_PROBCUT_INIT [OF 3] by (rule step_ok_PROBCUT)
    moreover have "\<forall>j\<le>0. \<not> is_tt_stage (stage (capture_init X s) + j)"
      using 3 by (auto simp: is_tt_stage_def stage_defs)
    ultimately show ?thesis using capture_init_fields by blast
  next
    case 4
    have "step_ok 2 (capture_init X s) (next_move X b s)"
      unfolding next_move_QCAPTURE_INIT [OF 4] by (rule step_ok_QCAPTURE)
    moreover have "\<forall>j\<le>2. \<not> is_tt_stage (stage (capture_init X s) + j)"
      using 4 by (auto simp: is_tt_stage_def stage_defs)
    ultimately show ?thesis using capture_init_fields by blast
  next
    case 5
    have "step_ok 5 s (next_move X b s)"
      unfolding next_move_GOOD_CAPTURE [OF 5] by (rule step_ok_GOOD_CAPTURE)
    moreover have "\<forall>j\<le>5. \<not> is_tt_stage (stage s + j)"
      using 5 by (auto simp: is_tt_stage_def stage_defs)
    ultimately show ?thesis by blast
  next
    case 6
    have "step_ok 4 s (next_move X b s)"
      unfolding next_move_REFUTATION [OF 6] by (rule step_ok_REFUTATION)
    moreover have "\<forall>j\<le>4. \<not> is_tt_stage (stage s + j)"
      using 6 by (auto simp: is_tt_stage_def stage_defs)
    ultimately show ?thesis by blast
  next
    case 7
    have "step_ok 3 s (next_move X b s)"
      unfolding next_move_QUIET_INIT [OF 7] by (rule step_ok_QUIET_INIT)
    moreover have "\<forall>j\<le>3. \<not> is_tt_stage (stage s + j)"
      using 7 by (auto simp: is_tt_stage_def stage_defs)
    ultimately show ?thesis by blast
  next
    case 8
    have "step_ok 2 s (next_move X b s)"
      unfolding next_move_GOOD_QUIET [OF 8] by (rule step_ok_GOOD_QUIET)
    moreover have "\<forall>j\<le>2. \<not> is_tt_stage (stage s + j)"
      using 8 by (auto simp: is_tt_stage_def stage_defs)
    ultimately show ?thesis by blast
  next
    case 9
    have "step_ok 1 s (next_move X b s)"
      unfolding next_move_BAD_CAPTURE [OF 9] by (rule step_ok_BAD_CAPTURE)
    moreover have "\<forall>j\<le>1. \<not> is_tt_stage (stage s + j)"
      using 9 by (auto simp: is_tt_stage_def stage_defs)
    ultimately show ?thesis by blast
  next
    case 10
    have "step_ok 0 s (next_move X b s)"
      unfolding next_move_BAD_QUIET [OF 10] by (rule step_ok_BAD_QUIET)
    moreover have "\<forall>j\<le>0. \<not> is_tt_stage (stage s + j)"
      using 10 by (auto simp: is_tt_stage_def stage_defs)
    ultimately show ?thesis by blast
  next
    case 11
    have "step_ok 1 s (next_move X b s)"
      unfolding next_move_EVASION_INIT [OF 11] by (rule step_ok_EVASION_INIT)
    moreover have "\<forall>j\<le>1. \<not> is_tt_stage (stage s + j)"
      using 11 by (auto simp: is_tt_stage_def stage_defs)
    ultimately show ?thesis by blast
  next
    case 12
    have "step_ok 0 s (next_move X b s)"
      unfolding next_move_EVASION [OF 12] by (rule step_ok_EVASION)
    moreover have "\<forall>j\<le>0. \<not> is_tt_stage (stage s + j)"
      using 12 by (auto simp: is_tt_stage_def stage_defs)
    ultimately show ?thesis by blast
  next
    case 13
    have "step_ok 0 s (next_move X b s)"
      unfolding next_move_PROBCUT [OF 13] by (rule step_ok_PROBCUT)
    moreover have "\<forall>j\<le>0. \<not> is_tt_stage (stage s + j)"
      using 13 by (auto simp: is_tt_stage_def stage_defs)
    ultimately show ?thesis by blast
  next
    case 14
    have "step_ok 2 s (next_move X b s)"
      unfolding next_move_QCAPTURE [OF 14] by (rule step_ok_QCAPTURE)
    moreover have "\<forall>j\<le>2. \<not> is_tt_stage (stage s + j)"
      using 14 by (auto simp: is_tt_stage_def stage_defs)
    ultimately show ?thesis by blast
  next
    case 15
    have "step_ok 1 s (next_move X b s)"
      unfolding next_move_QCHECK_INIT [OF 15] by (rule step_ok_QCHECK_INIT)
    moreover have "\<forall>j\<le>1. \<not> is_tt_stage (stage s + j)"
      using 15 by (auto simp: is_tt_stage_def stage_defs)
    ultimately show ?thesis by blast
  next
    case 16
    have "step_ok 0 s (next_move X b s)"
      unfolding next_move_QCHECK [OF 16] by (rule step_ok_QCHECK)
    moreover have "\<forall>j\<le>0. \<not> is_tt_stage (stage s + j)"
      using 16 by (auto simp: is_tt_stage_def stage_defs)
    ultimately show ?thesis by blast
  next
    case 17
    have "step_ok 0 s (next_move X b s)"
      unfolding next_move_other [OF 17] by (simp add: step_ok_def)
    moreover have "\<forall>j\<le>0. \<not> is_tt_stage (stage s + j)"
      using 17 by (auto simp: is_tt_stage_def stage_defs)
    ultimately show ?thesis by blast
  qed
  then obtain k t where t: "step_ok k t (next_move X b s)" "ttMove t = ttMove s"
    "pos t = pos s" "\<forall>j\<le>k. \<not> is_tt_stage (stage t + j)"
    by blast
  have "\<not> is_tt_stage (stage (snd (next_move X b s)))"
    by (rule step_ok_not_tt [OF t(1) refl t(4)])
  then show ?thesis using t(1,2,3) by (simp add: step_ok_def)
qed

lemma run_not_tt:
  "\<not> is_tt_stage (stage s) \<Longrightarrow> (m, st) \<in> set (run X bs s) \<Longrightarrow> m = Move_none \<or> m \<noteq> ttMove s"
proof (induction bs arbitrary: s)
  case Nil
  then show ?case by simp
next
  case (Cons b bs)
  obtain m1 s1 where nm: "next_move X b s = (m1, s1)" by (cases "next_move X b s")
  from next_move_not_tt [OF Cons.prems(1), of X b]
  have f: "m1 = Move_none \<or> m1 \<noteq> ttMove s" "ttMove s1 = ttMove s" "\<not> is_tt_stage (stage s1)"
    by (simp_all add: nm)
  from Cons.prems(2) have "(m, st) = (m1, stage s1) \<or> (m, st) \<in> set (run X bs s1)"
    by (simp add: nm)
  then show ?case
  proof
    assume "(m, st) = (m1, stage s1)"
    with f show ?thesis by auto
  next
    assume "(m, st) \<in> set (run X bs s1)"
    from Cons.IH [OF f(3) this] f(2) show ?thesis by simp
  qed
qed

subsection \<open>The hash move\<close>

lemmas eval_defs = ex_X_def ex_pos_def ex_s0_def ex_main_def MovePicker_main_def
  MovePicker_qsearch_def MovePicker_probcut_def
  next_move.simps stage_defs next_stage_def capture_init_Moves case_GOOD_CAPTURE_def
  case_REFUTATION_def case_QUIET_INIT_def case_GOOD_QUIET_def case_BAD_CAPTURE_def
  case_BAD_QUIET_def case_PROBCUT_def case_QCAPTURE_def case_QCHECK_INIT_def case_QCHECK_def
  case_EVASION_INIT_def case_EVASION_def evasion_init_Moves qcheck_init_Moves
  refutation_init_def select.simps select_test_def advance_def
  ptr_less_def deref_def store_def Let_def Move_none_def array_of_def score_value_def
  score_loop.simps partial_insertion_sort_def pis_loop.simps INT_MIN_def trunc_div_def
  quiet_init_Moves quiet_threshold_def swap_best_def max_element_def max_element_loop.simps

lemma stage_constructors:
  "ttm \<noteq> Move_none \<Longrightarrow> pseudo_legal p ttm \<Longrightarrow>
     is_tt_stage (stage (MovePicker_main s0 p ttm d mh cph ch ph cm killers))"
  "ttm \<noteq> Move_none \<Longrightarrow> pseudo_legal p ttm \<Longrightarrow>
     is_tt_stage (stage (MovePicker_qsearch s0 p ttm d mh cph ch ph))"
  "ttm \<noteq> Move_none \<Longrightarrow> capture_stage p ttm \<Longrightarrow> pseudo_legal p ttm \<Longrightarrow> see_ge p ttm th \<Longrightarrow>
     is_tt_stage (stage (MovePicker_probcut s0 p ttm th cph))"
  by (simp_all add: MovePicker_main_def MovePicker_qsearch_def MovePicker_probcut_def
      is_tt_stage_def)

lemma ttMove_constructors [simp]:
  "ttMove (MovePicker_main s0 p ttm d mh cph ch ph cm killers) = ttm"
  "ttMove (MovePicker_qsearch s0 p ttm d mh cph ch ph) = ttm"
  "ttMove (MovePicker_probcut s0 p ttm th cph) = ttm"
  by (simp_all add: MovePicker_main_def MovePicker_qsearch_def MovePicker_probcut_def)

lemma pos_constructors [simp]:
  "pos (MovePicker_main s0 p ttm d mh cph ch ph cm killers) = p"
  "pos (MovePicker_qsearch s0 p ttm d mh cph ch ph) = p"
  "pos (MovePicker_probcut s0 p ttm th cph) = p"
  by (simp_all add: MovePicker_main_def MovePicker_qsearch_def MovePicker_probcut_def)

lemma tt_stage_succ: "is_tt_stage n \<Longrightarrow> \<not> is_tt_stage (n + 1)"
  by (auto simp: is_tt_stage_def stage_defs)

lemma run_from_tt_stage:
  assumes "is_tt_stage (stage s)" "ttMove s \<noteq> Move_none"
  shows "\<exists>rest. map fst (run X (b # bs) s) = ttMove s # rest \<and> ttMove s \<notin> set rest"
proof -
  let ?s1 = "next_stage s"
  have nm: "next_move X b s = (ttMove s, ?s1)" by (rule next_move_TT [OF assms(1)])
  have nt: "\<not> is_tt_stage (stage ?s1)" using tt_stage_succ [OF assms(1)] by simp
  have "ttMove s \<notin> set (map fst (run X bs ?s1))"
  proof
    assume "ttMove s \<in> set (map fst (run X bs ?s1))"
    then obtain st where "(ttMove s, st) \<in> set (run X bs ?s1)" by auto
    from run_not_tt [OF nt this] assms(2) show False by simp
  qed
  then show ?thesis by (simp add: nm)
qed

subsection \<open>The tables the picker stores and never reads\<close>

lemma wh_fields [simp]:
  "cur (with_histories c h s) = cur s"
  "endMoves (with_histories c h s) = endMoves s"
  "endBadCaptures (with_histories c h s) = endBadCaptures s"
  "beginBadQuiets (with_histories c h s) = beginBadQuiets s"
  "endBadQuiets (with_histories c h s) = endBadQuiets s"
  "stage (with_histories c h s) = stage s"
  "ttMove (with_histories c h s) = ttMove s"
  "pos (with_histories c h s) = pos s"
  "depth (with_histories c h s) = depth s"
  "threshold (with_histories c h s) = threshold s"
  "mainHistory (with_histories c h s) = mainHistory s"
  "moves (with_histories c h s) = moves s"
  "refutations (with_histories c h s) = refutations s"
  by (simp_all add: with_histories_def)

lemma wh_array_at [simp]: "array_at (with_histories c h s) p = array_at s p"
  by (cases p) simp_all

lemma wh_deref [simp]: "deref (with_histories c h s) p = deref s p"
  by (simp add: deref_def)

lemma wh_set_array: "set_array p a (with_histories c h s) = with_histories c h (set_array p a s)"
  by (cases p) (simp_all add: with_histories_def)

lemma wh_store: "store p v (with_histories c h s) = with_histories c h (store p v s)"
  by (simp add: store_def wh_set_array)

lemma wh_swap_best: "swap_best (with_histories c h s) = with_histories c h (swap_best s)"
  by (simp add: swap_best_def Let_def wh_set_array)

lemma wh_upd:
  "(with_histories c h s)\<lparr>cur := p\<rparr> = with_histories c h (s\<lparr>cur := p\<rparr>)"
  "(with_histories c h s)\<lparr>endMoves := p\<rparr> = with_histories c h (s\<lparr>endMoves := p\<rparr>)"
  "(with_histories c h s)\<lparr>endBadCaptures := p\<rparr> = with_histories c h (s\<lparr>endBadCaptures := p\<rparr>)"
  "(with_histories c h s)\<lparr>beginBadQuiets := p\<rparr> = with_histories c h (s\<lparr>beginBadQuiets := p\<rparr>)"
  "(with_histories c h s)\<lparr>endBadQuiets := p\<rparr> = with_histories c h (s\<lparr>endBadQuiets := p\<rparr>)"
  "(with_histories c h s)\<lparr>stage := n\<rparr> = with_histories c h (s\<lparr>stage := n\<rparr>)"
  "(with_histories c h s)\<lparr>moves := a\<rparr> = with_histories c h (s\<lparr>moves := a\<rparr>)"
  by (simp_all add: with_histories_def)

lemma wh_advance: "advance (with_histories c h s) = with_histories c h (advance s)"
  by (simp add: advance_def wh_upd)

lemma wh_next_stage: "next_stage (with_histories c h s) = with_histories c h (next_stage s)"
  by (simp add: next_stage_def wh_upd)

lemma wh_filter_apply:
  "filter_apply P (with_histories c h s) = (fst (filter_apply P s), with_histories c h (snd (filter_apply P s)))"
  by (cases P) (simp_all add: wh_store wh_upd)

lemma wh_select_test:
  "select_test T P (with_histories c h s)
     = (fst (select_test T P s), with_histories c h (snd (select_test T P s)))"
  by (simp add: select_test_def Let_def wh_swap_best wh_filter_apply)

lemma wh_select:
  "select T P (with_histories c h s) = with_histories_result c h (select T P s)"
proof (induction s rule: select_cases [where T = T and P = P])
  case (exhausted s)
  then show ?case by (simp add: select_done with_histories_result_def)
next
  case (found s)
  then show ?case
    by (simp add: select_found wh_select_test wh_advance with_histories_result_def)
next
  case (skip s)
  then show ?case
    by (simp add: select_skip wh_select_test wh_advance)
qed

lemma wh_score_value [simp]: "score_value X T (with_histories c h s) = score_value X T s"
  by (rule score_value_cong) simp_all

lemma wh_score: "score X T (with_histories c h s) = with_histories c h (score X T s)"
  by (simp add: score_def wh_set_array)

lemma wh_sort_range:
  "sort_range b e l (with_histories c h s) = with_histories c h (sort_range b e l s)"
  by (simp add: sort_range_def wh_set_array)

lemma wh_generate_at:
  "generate_at X T p (with_histories c h s)
     = (fst (generate_at X T p s), with_histories c h (snd (generate_at X T p s)))"
  by (simp add: generate_at_def wh_set_array)

lemma wh_refutation_init:
  "refutation_init (with_histories c h s) = with_histories c h (refutation_init s)"
  by (simp add: refutation_init_def Let_def wh_upd)

lemma wh_quiet_init: "quiet_init X (with_histories c h s) = with_histories c h (quiet_init X s)"
  by (simp add: quiet_init_def Let_def split_beta wh_upd wh_generate_at wh_score wh_sort_range)

lemma wh_capture_init:
  "capture_init X (with_histories c h s) = with_histories c h (capture_init X s)"
  by (simp add: capture_init_def Let_def split_beta wh_upd wh_generate_at wh_score
      wh_sort_range wh_next_stage)

lemma wh_evasion_init:
  "evasion_init X (with_histories c h s) = with_histories c h (evasion_init X s)"
  by (simp add: evasion_init_def Let_def split_beta wh_upd wh_generate_at wh_score wh_next_stage)

lemma wh_qcheck_init:
  "qcheck_init X (with_histories c h s) = with_histories c h (qcheck_init X s)"
  by (simp add: qcheck_init_def Let_def split_beta wh_upd wh_generate_at wh_next_stage)

lemma whr_simps [simp]:
  "fst (with_histories_result c h r) = fst r"
  "snd (with_histories_result c h r) = with_histories c h (snd r)"
  "with_histories_result c h (m, s) = (m, with_histories c h s)"
  by (simp_all add: with_histories_result_def)

lemma wh_case_BAD_QUIET:
  "case_BAD_QUIET b (with_histories c h s) = with_histories_result c h (case_BAD_QUIET b s)"
  by (simp add: case_BAD_QUIET_def wh_select)

lemma wh_case_BAD_CAPTURE:
  "case_BAD_CAPTURE b (with_histories c h s) = with_histories_result c h (case_BAD_CAPTURE b s)"
  by (simp add: case_BAD_CAPTURE_def wh_select split_beta wh_upd wh_next_stage wh_case_BAD_QUIET)

lemma wh_case_GOOD_QUIET:
  "case_GOOD_QUIET b (with_histories c h s) = with_histories_result c h (case_GOOD_QUIET b s)"
proof (cases b)
  case True
  then show ?thesis
    by (simp add: case_GOOD_QUIET_def Let_def wh_upd wh_next_stage wh_case_BAD_CAPTURE)
next
  case False
  then show ?thesis
    by (simp add: case_GOOD_QUIET_def Let_def wh_select split_beta wh_upd wh_next_stage
        wh_case_BAD_CAPTURE)
qed

lemma wh_case_QUIET_INIT:
  "case_QUIET_INIT X b (with_histories c h s)
     = with_histories_result c h (case_QUIET_INIT X b s)"
  by (simp add: case_QUIET_INIT_def wh_quiet_init wh_next_stage wh_case_GOOD_QUIET)

lemma wh_case_REFUTATION:
  "case_REFUTATION X b (with_histories c h s)
     = with_histories_result c h (case_REFUTATION X b s)"
  by (simp add: case_REFUTATION_def wh_select split_beta wh_next_stage wh_case_QUIET_INIT)

lemma wh_case_GOOD_CAPTURE:
  "case_GOOD_CAPTURE X b (with_histories c h s)
     = with_histories_result c h (case_GOOD_CAPTURE X b s)"
  by (simp add: case_GOOD_CAPTURE_def wh_select split_beta wh_next_stage wh_refutation_init
      wh_case_REFUTATION)

lemma wh_case_EVASION:
  "case_EVASION (with_histories c h s) = with_histories_result c h (case_EVASION s)"
  by (simp add: case_EVASION_def wh_select)

lemma wh_case_EVASION_INIT:
  "case_EVASION_INIT X (with_histories c h s)
     = with_histories_result c h (case_EVASION_INIT X s)"
  by (simp add: case_EVASION_INIT_def wh_evasion_init wh_case_EVASION)

lemma wh_case_PROBCUT:
  "case_PROBCUT (with_histories c h s) = with_histories_result c h (case_PROBCUT s)"
  by (simp add: case_PROBCUT_def wh_select)

lemma wh_case_QCHECK:
  "case_QCHECK (with_histories c h s) = with_histories_result c h (case_QCHECK s)"
  by (simp add: case_QCHECK_def wh_select)

lemma wh_case_QCHECK_INIT:
  "case_QCHECK_INIT X (with_histories c h s)
     = with_histories_result c h (case_QCHECK_INIT X s)"
  by (simp add: case_QCHECK_INIT_def wh_qcheck_init wh_case_QCHECK)

lemma wh_case_QCAPTURE:
  "case_QCAPTURE X (with_histories c h s) = with_histories_result c h (case_QCAPTURE X s)"
  by (simp add: case_QCAPTURE_def wh_select split_beta wh_next_stage wh_case_QCHECK_INIT)

lemma wh_next_move:
  "next_move X b (with_histories c h s) = with_histories_result c h (next_move X b s)"
proof (cases "stage s" rule: stage_cases)
  case 1
  then show ?thesis by (simp add: next_move_TT wh_next_stage)
next
  case 2
  then show ?thesis by (simp add: next_move_CAPTURE_INIT wh_capture_init wh_case_GOOD_CAPTURE)
next
  case 3
  then show ?thesis by (simp add: next_move_PROBCUT_INIT wh_capture_init wh_case_PROBCUT)
next
  case 4
  then show ?thesis by (simp add: next_move_QCAPTURE_INIT wh_capture_init wh_case_QCAPTURE)
next
  case 5
  then show ?thesis by (simp add: next_move_GOOD_CAPTURE wh_case_GOOD_CAPTURE)
next
  case 6
  then show ?thesis by (simp add: next_move_REFUTATION wh_case_REFUTATION)
next
  case 7
  then show ?thesis by (simp add: next_move_QUIET_INIT wh_case_QUIET_INIT)
next
  case 8
  then show ?thesis by (simp add: next_move_GOOD_QUIET wh_case_GOOD_QUIET)
next
  case 9
  then show ?thesis by (simp add: next_move_BAD_CAPTURE wh_case_BAD_CAPTURE)
next
  case 10
  then show ?thesis by (simp add: next_move_BAD_QUIET wh_case_BAD_QUIET)
next
  case 11
  then show ?thesis by (simp add: next_move_EVASION_INIT wh_case_EVASION_INIT)
next
  case 12
  then show ?thesis by (simp add: next_move_EVASION wh_case_EVASION)
next
  case 13
  then show ?thesis by (simp add: next_move_PROBCUT wh_case_PROBCUT)
next
  case 14
  then show ?thesis by (simp add: next_move_QCAPTURE wh_case_QCAPTURE)
next
  case 15
  then show ?thesis by (simp add: next_move_QCHECK_INIT wh_case_QCHECK_INIT)
next
  case 16
  then show ?thesis by (simp add: next_move_QCHECK wh_case_QCHECK)
next
  case 17
  then show ?thesis by (simp add: next_move_other)
qed

lemma wh_run: "run X bs (with_histories c h s) = run X bs s"
proof (induction bs arbitrary: s)
  case Nil
  show ?case by simp
next
  case (Cons b bs)
  show ?case
    by (simp add: wh_next_move split_beta Cons.IH)
qed

lemma wh_constructors:
  "MovePicker_main s0 p ttm d mh cph' ch ph' cm killers
     = with_histories cph' ph' (MovePicker_main s0 p ttm d mh cph ch ph cm killers)"
  "MovePicker_qsearch s0 p ttm d mh cph' ch ph'
     = with_histories cph' ph' (MovePicker_qsearch s0 p ttm d mh cph ch ph)"
  "MovePicker_probcut (s0\<lparr>pawnHistory := ph'\<rparr>) p ttm th cph'
     = with_histories cph' ph' (MovePicker_probcut s0 p ttm th cph)"
  by (simp_all add: MovePicker_main_def MovePicker_qsearch_def MovePicker_probcut_def
      with_histories_def)

lemma mset_partial_insertion_sort:
  "mset (range_of (partial_insertion_sort a b e l) b e) = mset (range_of a b e)"
  by (rule partial_insertion_sort_props(1))

lemma score_value_contHistory2 [simp]:
  "score_value (X\<lparr>contHistory := (contHistory X)(2 := h)\<rparr>) T s = score_value X T s"
  by (rule ext) (simp add: score_value_def)

subsection \<open>select, as a scan of a list\<close>

lemma fst_filter_apply: "fst (filter_apply P s) = accepts P s (deref s (cur s))"
  by (cases P) simp_all

lemma fst_select_test_Next: "fst (select_test Next P s) = picks P s (deref s (cur s))"
  by (simp add: select_test_def picks_def fst_filter_apply)

lemma snd_select_test_pure:
  "P \<noteq> GoodCapture \<Longrightarrow> snd (select_test Next P s) = s"
  by (cases P) (simp_all add: select_test_def)

lemma remaining_ptr_less:
  "ptr_less (cur s) (endMoves s) \<Longrightarrow>
   remaining s = deref s (cur s) # remaining (advance s)"
  by (cases "cur s"; cases "endMoves s")
    (simp_all add: ptr_less_def remaining_def deref_def range_of_cons advance_def)

lemma remaining_not_less: "\<not> ptr_less (cur s) (endMoves s) \<Longrightarrow> remaining s = []"
  by (auto simp: ptr_less_def remaining_def)

lemma picks_advance [simp]: "picks P (advance s) = picks P s"
  by (rule ext, cases P) (simp_all add: picks_def)

lemma picks_cur_upd [simp]: "picks P (s\<lparr>cur := p\<rparr>) = picks P s"
  by (rule ext, cases P) (simp_all add: picks_def)

text \<open>A predicate without effect: \<open>select\<close> moves \<^verbatim>\<open>cur\<close> and nothing else; it returns
  the first pending move, or none when no move is pending.\<close>

lemma select_pure:
  assumes "P \<noteq> GoodCapture"
  shows "snd (select Next P s) = s\<lparr>cur := cur (snd (select Next P s))\<rparr>
    \<and> same_array (cur (snd (select Next P s))) (cur s)
    \<and> ((pending P s = fst (select Next P s) # pending P (snd (select Next P s)))
       \<or> (fst (select Next P s) = Move_none \<and> pending P s = []
          \<and> remaining (snd (select Next P s)) = []))"
proof (induction s rule: select_cases [where T = Next and P = P])
  case (exhausted s)
  then show ?case
    by (simp add: select_done pending_def remaining_not_less)
next
  case (found s)
  have p: "picks P s (deref s (cur s))" using found(2) by (simp add: fst_select_test_Next)
  have eq: "select Next P s = (move (deref s (cur s)), advance s)"
    using found by (simp add: select_found snd_select_test_pure [OF assms])
  have "pending P s = move (deref s (cur s)) # pending P (advance s)"
    using p by (simp add: pending_def remaining_ptr_less [OF found(1)])
  then show ?case by (simp add: eq advance_def)
next
  case (skip s)
  have p: "\<not> picks P s (deref s (cur s))" using skip(2) by (simp add: fst_select_test_Next)
  have eq: "select Next P s = select Next P (advance s)"
    using skip by (simp add: select_skip snd_select_test_pure [OF assms])
  have pe: "pending P s = pending P (advance s)"
    using p by (simp add: pending_def remaining_ptr_less [OF skip(1)])
  let ?s' = "snd (select Next P (advance s))"
  from skip(3) have IH: "?s' = (advance s)\<lparr>cur := cur ?s'\<rparr>"
    "same_array (cur ?s') (cur (advance s))"
    "(pending P (advance s) = fst (select Next P (advance s)) # pending P ?s')
       \<or> (fst (select Next P (advance s)) = Move_none \<and> pending P (advance s) = []
          \<and> remaining ?s' = [])"
    by (simp_all add: snd_select_test_pure [OF assms])
  have "?s' = s\<lparr>cur := cur ?s'\<rparr>"
    by (subst IH(1)) (simp add: advance_def)
  moreover have "same_array (cur ?s') (cur s)" using IH(2) by simp
  ultimately show ?case using IH(3) unfolding eq pe by blast
qed

lemma select_pure_member:
  assumes "P \<noteq> GoodCapture" "fst (select Next P s) \<noteq> Move_none"
  shows "fst (select Next P s) \<in> set (pending P s)"
  using select_pure [OF assms(1), of s] assms(2) by (metis list.set_intros(1))

subsection \<open>The scan of the good captures\<close>

lemma select_test_GoodCapture:
  "snd (select_test Next GoodCapture s) =
     (if rejected s (deref s (cur s))
      then (store (endBadCaptures s) (deref s (cur s)) s)
             \<lparr>endBadCaptures := ptr_add (endBadCaptures s) 1\<rparr>
      else s)"
  by (simp add: select_test_def rejected_def)

lemma good_skip:
  assumes sh: "good_shape s" and less: "ptr_less (cur s) (endMoves s)"
    and no: "\<not> fst (select_test Next GoodCapture s)"
  defines "t \<equiv> advance (snd (select_test Next GoodCapture s))"
  shows "good_shape t" and "refutations t = refutations s"
    and "bad_total t = bad_total s" and "pending GoodCapture t = pending GoodCapture s"
proof -
  from sh obtain c n e where p: "cur s = Moves c" "endMoves s = Moves n"
    "endBadCaptures s = Moves e" "e \<le> c"
    unfolding good_shape_def by blast
  have cn: "c < n" using less by (simp add: ptr_less_def p)
  let ?x = "moves s c"
  have x: "deref s (cur s) = ?x" by (simp add: deref_def p)
  have x': "deref s (Moves c) = ?x" by (simp add: deref_def)
  have np: "\<not> picks GoodCapture s ?x" using no by (simp add: fst_select_test_Next x)
  have rem: "remaining s = ?x # range_of (moves s) (Suc c) n"
    using cn by (simp add: remaining_def p range_of_cons)
  have "good_shape t \<and> refutations t = refutations s
    \<and> bad_total t = bad_total s \<and> pending GoodCapture t = pending GoodCapture s"
  proof (cases "rejected s ?x")
    case False
    then have t: "t = advance s" by (simp add: t_def select_test_GoodCapture x)
    have rt: "remaining t = range_of (moves s) (Suc c) n"
      by (simp add: t remaining_def p)
    have bt: "bad_captures t = bad_captures s" by (simp add: t bad_captures_def)
    have rj: "rejected t = rejected s"
      by (rule ext) (simp add: rejected_def t)
    have pk: "picks GoodCapture t = picks GoodCapture s" by (simp add: t)
    have "good_shape t" using p by (simp add: t good_shape_def)
    moreover have "refutations t = refutations s" by (simp add: t)
    moreover have "bad_total t = bad_total s"
      using False by (simp add: bad_total_def bt rt rem rj)
    moreover have "pending GoodCapture t = pending GoodCapture s"
      using np by (simp add: pending_def rt rem pk)
    ultimately show ?thesis by simp
  next
    case True
    let ?a = "(moves s)(e := ?x)"
    have t: "t = s\<lparr>moves := ?a, endBadCaptures := Moves (Suc e), cur := Moves (Suc c)\<rparr>"
      using True by (simp add: t_def select_test_GoodCapture x x' p store_def advance_def)
    have "e < Suc c \<or> n \<le> e" using p(4) by simp
    then have "range_of ?a (Suc c) n = range_of (moves s) (Suc c) n"
      by (rule range_of_upd_outside)
    then have rt: "remaining t = range_of (moves s) (Suc c) n"
      by (simp add: t remaining_def p)
    have "range_of ?a 0 e = range_of (moves s) 0 e"
      by (rule range_of_upd_outside) simp
    then have bt: "bad_captures t = bad_captures s @ [?x]"
      by (simp add: t bad_captures_def p range_of_snoc)
    have rj: "rejected t = rejected s"
      by (rule ext) (simp add: rejected_def t)
    have pk: "picks GoodCapture t = picks GoodCapture s"
      by (rule ext) (simp add: picks_def t)
    have "good_shape t" using p by (simp add: t good_shape_def)
    moreover have "refutations t = refutations s" by (simp add: t)
    moreover have "bad_total t = bad_total s"
      using True by (simp add: bad_total_def bt rt rem rj)
    moreover have "pending GoodCapture t = pending GoodCapture s"
      using np by (simp add: pending_def rt rem pk)
    ultimately show ?thesis by simp
  qed
  then show "good_shape t" and "refutations t = refutations s"
    and "bad_total t = bad_total s" and "pending GoodCapture t = pending GoodCapture s"
    by simp_all
qed

lemma good_found:
  assumes sh: "good_shape s" and less: "ptr_less (cur s) (endMoves s)"
    and ok: "fst (select_test Next GoodCapture s)"
  shows "select Next GoodCapture s = (move (deref s (cur s)), advance s)"
    and "good_shape (advance s)"
    and "bad_total (advance s) = bad_total s"
    and "pending GoodCapture s = move (deref s (cur s)) # pending GoodCapture (advance s)"
proof -
  from sh obtain c n e where p: "cur s = Moves c" "endMoves s = Moves n"
    "endBadCaptures s = Moves e" "e \<le> c"
    unfolding good_shape_def by blast
  have pk: "picks GoodCapture s (deref s (cur s))" using ok by (simp add: fst_select_test_Next)
  then have nr: "\<not> rejected s (deref s (cur s))" by (simp add: picks_def rejected_def)
  then have s1: "snd (select_test Next GoodCapture s) = s"
    by (simp add: select_test_GoodCapture)
  show "select Next GoodCapture s = (move (deref s (cur s)), advance s)"
    using less ok by (simp add: select_found s1)
  show "good_shape (advance s)" using p by (simp add: good_shape_def)
  have rj: "rejected (advance s) = rejected s"
    by (rule ext) (simp add: rejected_def)
  show "bad_total (advance s) = bad_total s"
    using nr by (simp add: bad_total_def bad_captures_def remaining_ptr_less [OF less] rj)
  show "pending GoodCapture s = move (deref s (cur s)) # pending GoodCapture (advance s)"
    using pk by (simp add: pending_def remaining_ptr_less [OF less])
qed

text \<open>The scan returns the first pending good capture, or none when no capture is
  pending; the bad-capture sub-range grows by the captures it rejects on the way.\<close>

lemma select_good:
  "good_shape s \<longrightarrow>
     good_shape (snd (select Next GoodCapture s))
   \<and> refutations (snd (select Next GoodCapture s)) = refutations s
   \<and> bad_total (snd (select Next GoodCapture s)) = bad_total s
   \<and> ((pending GoodCapture s
          = fst (select Next GoodCapture s) # pending GoodCapture (snd (select Next GoodCapture s)))
      \<or> (fst (select Next GoodCapture s) = Move_none \<and> pending GoodCapture s = []
         \<and> remaining (snd (select Next GoodCapture s)) = []))"
proof (induction s rule: select_cases [where T = Next and P = GoodCapture])
  case (exhausted s)
  then show ?case by (simp add: select_done pending_def remaining_not_less)
next
  case (found s)
  show ?case
  proof
    assume sh: "good_shape s"
    from good_found [OF sh found] show "good_shape (snd (select Next GoodCapture s))
      \<and> refutations (snd (select Next GoodCapture s)) = refutations s
      \<and> bad_total (snd (select Next GoodCapture s)) = bad_total s
      \<and> ((pending GoodCapture s
          = fst (select Next GoodCapture s) # pending GoodCapture (snd (select Next GoodCapture s)))
        \<or> (fst (select Next GoodCapture s) = Move_none \<and> pending GoodCapture s = []
         \<and> remaining (snd (select Next GoodCapture s)) = []))"
      by simp
  qed
next
  case (skip s)
  show ?case
  proof
    assume sh: "good_shape s"
    let ?t = "advance (snd (select_test Next GoodCapture s))"
    note k = good_skip [OF sh skip(1,2)]
    have eq: "select Next GoodCapture s = select Next GoodCapture ?t"
      using skip(1,2) by (rule select_skip)
    from skip(3) k(1) have IH: "good_shape (snd (select Next GoodCapture ?t))"
      "refutations (snd (select Next GoodCapture ?t)) = refutations ?t"
      "bad_total (snd (select Next GoodCapture ?t)) = bad_total ?t"
      "(pending GoodCapture ?t
          = fst (select Next GoodCapture ?t) # pending GoodCapture (snd (select Next GoodCapture ?t)))
        \<or> (fst (select Next GoodCapture ?t) = Move_none \<and> pending GoodCapture ?t = []
         \<and> remaining (snd (select Next GoodCapture ?t)) = [])"
      by blast+
    show "good_shape (snd (select Next GoodCapture s))
      \<and> refutations (snd (select Next GoodCapture s)) = refutations s
      \<and> bad_total (snd (select Next GoodCapture s)) = bad_total s
      \<and> ((pending GoodCapture s
          = fst (select Next GoodCapture s) # pending GoodCapture (snd (select Next GoodCapture s)))
        \<or> (fst (select Next GoodCapture s) = Move_none \<and> pending GoodCapture s = []
         \<and> remaining (snd (select Next GoodCapture s)) = []))"
      unfolding eq using IH k(2,3,4) by simp
  qed
qed

subsection \<open>The main search, call by call\<close>

lemma main_step_via:
  assumes "main_step b t r" "good_rest s = good_rest t" "bad_rest s = bad_rest t"
    "ref_rest s = ref_rest t" "stage s \<le> stage t" "pos t = pos s" "ttMove t = ttMove s"
  shows "main_step b s r"
  using assms unfolding main_step_def by auto

lemma picks_cong:
  "ttMove t = ttMove s \<Longrightarrow> pos t = pos s \<Longrightarrow> threshold t = threshold s \<Longrightarrow>
   refutations t = refutations s \<Longrightarrow> picks P t = picks P s"
  by (rule ext, cases P) (simp_all add: picks_def)

lemma pending_Always: "pending Always s = filter (\<lambda>m. m \<noteq> ttMove s) (map move (remaining s))"
proof -
  have "picks Always s = (\<lambda>x. move x \<noteq> ttMove s)"
    by (rule ext) (simp add: picks_def)
  then show ?thesis by (simp add: pending_def filter_map comp_def)
qed

lemma select_prev:
  "select T P s = (m, s1) \<Longrightarrow> m \<noteq> Move_none \<Longrightarrow> move (deref s1 (ptr_sub (cur s1) 1)) = m"
  using select_returns [of T P s] by simp

lemma main_BAD_QUIET:
  assumes "stage s = BAD_QUIET"
  shows "main_step b s (case_BAD_QUIET b s)"
proof -
  have st: "stage (snd (case_BAD_QUIET b s)) = BAD_QUIET"
    and ps: "pos (snd (case_BAD_QUIET b s)) = pos s"
    and tt: "ttMove (snd (case_BAD_QUIET b s)) = ttMove s"
    using assms by (simp_all add: case_BAD_QUIET_def)
  have nb: "fst (case_BAD_QUIET b s) \<noteq> Move_none \<longrightarrow> \<not> b"
    by (simp add: case_BAD_QUIET_def)
  show ?thesis
    unfolding main_step_def main_inv_def good_rest_def bad_rest_def ref_rest_def yield_def
    using assms st ps tt nb by (simp add: stage_defs)
qed

lemma main_BAD_CAPTURE:
  assumes st: "stage s = BAD_CAPTURE" and nn: "Move_none \<notin> set (bad_rest s)"
  shows "main_step b s (case_BAD_CAPTURE b s)"
proof -
  obtain m s1 where sel: "select Next Always s = (m, s1)" by (cases "select Next Always s")
  have f: "stage s1 = BAD_CAPTURE" "pos s1 = pos s" "ttMove s1 = ttMove s"
    using select_stage [of Next Always s] select_pos [of Next Always s]
      select_ttMove [of Next Always s] st by (simp_all add: sel)
  have br: "bad_rest s = pending Always s" using st by (simp add: bad_rest_def stage_defs)
  have br1: "bad_rest s1 = pending Always s1" using f by (simp add: bad_rest_def stage_defs)
  from select_pure [of Always s]
  have d: "pending Always s = m # pending Always s1
      \<or> (m = Move_none \<and> pending Always s = [] \<and> remaining s1 = [])"
    by (simp add: sel)
  show ?thesis
  proof (cases "m = Move_none")
    case False
    with d have p: "pending Always s = m # pending Always s1" by simp
    have r: "case_BAD_CAPTURE b s = (m, s1)"
      using False select_prev [OF sel False] by (simp add: case_BAD_CAPTURE_def sel)
    have "Move_none \<notin> set (pending Always s1)" using nn unfolding br p by simp
    then show ?thesis
      unfolding r main_step_def main_inv_def good_rest_def ref_rest_def yield_def
      using False f st br br1 p by (simp add: stage_defs)
  next
    case True
    have e: "pending Always s = []"
    proof (rule ccontr)
      assume "pending Always s \<noteq> []"
      with d True have "pending Always s = Move_none # pending Always s1" by simp
      with nn br show False by simp
    qed
    let ?t = "next_stage (s1\<lparr>cur := beginBadQuiets s1, endMoves := endBadQuiets s1\<rparr>)"
    have r: "case_BAD_CAPTURE b s = case_BAD_QUIET b ?t"
      using True by (simp add: case_BAD_CAPTURE_def sel)
    have tst: "stage ?t = BAD_QUIET" using f by (simp add: stage_defs)
    show ?thesis
      unfolding r
    proof (rule main_step_via [OF main_BAD_QUIET [OF tst]])
      show "good_rest s = good_rest ?t" using st tst by (simp add: good_rest_def stage_defs)
      show "bad_rest s = bad_rest ?t" using tst br e by (simp add: bad_rest_def stage_defs)
      show "ref_rest s = ref_rest ?t" using st tst by (simp add: ref_rest_def stage_defs)
      show "stage s \<le> stage ?t" using st tst by (simp add: stage_defs)
      show "pos ?t = pos s" using f by simp
      show "ttMove ?t = ttMove s" using f by simp
    qed
  qed
qed

lemma bad_list_cong:
  "moves t = moves s \<Longrightarrow> endBadCaptures t = endBadCaptures s \<Longrightarrow> ttMove t = ttMove s \<Longrightarrow>
   bad_list t = bad_list s"
  by (simp add: bad_list_def bad_captures_def)

lemma pending_Always_bad_list:
  assumes "endBadCaptures s = Moves e" "cur t = Moves 0" "endMoves t = Moves e"
    "moves t = moves s" "ttMove t = ttMove s"
  shows "pending Always t = bad_list s"
  using assms by (simp add: pending_Always remaining_def bad_list_def bad_captures_def)

text \<open>The state in which the bad-capture stage starts.\<close>

lemma to_BAD_CAPTURE:
  assumes st: "stage s = GOOD_QUIET" and inv: "main_inv s"
    and t: "t = next_stage (s2\<lparr>cur := Moves 0, endMoves := endBadCaptures s2\<rparr>)"
    and s2: "moves s2 = moves s" "endBadCaptures s2 = endBadCaptures s" "ttMove s2 = ttMove s"
      "pos s2 = pos s" "stage s2 = stage s"
  shows "main_step b s (case_BAD_CAPTURE b t)"
proof -
  from inv st obtain e where e: "endBadCaptures s = Moves e"
    and nn: "Move_none \<notin> set (bad_rest s)"
    by (auto simp: main_inv_def stage_defs)
  have br: "bad_rest s = bad_list s" using st by (simp add: bad_rest_def stage_defs)
  have tst: "stage t = BAD_CAPTURE" using st s2 by (simp add: t stage_defs)
  have pt: "pending Always t = bad_list s"
    by (rule pending_Always_bad_list [OF e]) (simp_all add: t s2 e)
  have brt: "bad_rest t = bad_list s" using tst pt by (simp add: bad_rest_def stage_defs)
  have "Move_none \<notin> set (bad_rest t)" using nn br brt by simp
  from main_BAD_CAPTURE [OF tst this]
  show ?thesis
  proof (rule main_step_via)
    show "good_rest s = good_rest t" using st tst by (simp add: good_rest_def stage_defs)
    show "bad_rest s = bad_rest t" using br brt by simp
    show "ref_rest s = ref_rest t" using st tst by (simp add: ref_rest_def stage_defs)
    show "stage s \<le> stage t" using st tst by (simp add: stage_defs)
    show "pos t = pos s" by (simp add: t s2)
    show "ttMove t = ttMove s" by (simp add: t s2)
  qed
qed

lemma main_GOOD_QUIET:
  assumes st: "stage s = GOOD_QUIET" and inv: "main_inv s"
  shows "main_step b s (case_GOOD_QUIET b s)"
proof (cases b)
  case True
  let ?t = "next_stage (s\<lparr>cur := Moves 0, endMoves := endBadCaptures s\<rparr>)"
  have r: "case_GOOD_QUIET b s = case_BAD_CAPTURE b ?t"
    using True by (simp add: case_GOOD_QUIET_def Let_def)
  show ?thesis unfolding r by (rule to_BAD_CAPTURE [OF st inv refl]) simp_all
next
  case False
  obtain m s1 where sel: "select Next NotRefutation s = (m, s1)"
    by (cases "select Next NotRefutation s")
  have s1: "s1 = s\<lparr>cur := cur s1\<rparr>"
    using select_pure [of NotRefutation s] by (simp add: sel)
  have f: "moves s1 = moves s" "endBadCaptures s1 = endBadCaptures s" "ttMove s1 = ttMove s"
    "pos s1 = pos s" "stage s1 = stage s"
    by (subst s1, simp)+
  let ?prev = "deref s1 (ptr_sub (cur s1) 1)"
  show ?thesis
  proof (cases "m \<noteq> Move_none
      \<and> (value' ?prev > - 8000 \<or> value' ?prev \<le> quiet_threshold (depth s1))")
    case True
    have r: "case_GOOD_QUIET b s = (m, s1)"
      unfolding case_GOOD_QUIET_def using False True select_prev [OF sel]
      by (simp add: sel Let_def)
    have bl: "bad_list s1 = bad_list s" by (rule bad_list_cong) (simp_all add: f)
    from inv st have "main_inv s1"
      unfolding main_inv_def good_rest_def bad_rest_def using f bl by (simp add: stage_defs)
    then show ?thesis
      unfolding r main_step_def good_rest_def bad_rest_def ref_rest_def yield_def
      using st f bl False True by (simp add: stage_defs)
  next
    case no: False
    let ?s2 = "if m \<noteq> Move_none then s1\<lparr>beginBadQuiets := ptr_sub (cur s1) 1\<rparr> else s1"
    let ?t = "next_stage (?s2\<lparr>cur := Moves 0, endMoves := endBadCaptures ?s2\<rparr>)"
    have r: "case_GOOD_QUIET b s = case_BAD_CAPTURE b ?t"
      unfolding case_GOOD_QUIET_def using False no by (auto simp: sel Let_def)
    show ?thesis unfolding r
      by (rule to_BAD_CAPTURE [OF st inv refl]) (simp_all add: f)
  qed
qed

lemma quiet_init_bad_captures:
  assumes "endBadCaptures s = Moves e"
  shows "bad_captures (quiet_init X s) = bad_captures s"
proof -
  let ?n = "e + length (generate X QUIETS (pos s))"
  have "range_of (moves (quiet_init X s)) 0 e = range_of (moves s) 0 e"
  proof (rule range_of_cong)
    fix i assume i: "0 \<le> i" "i < e"
    have "moves (quiet_init X s) i
        = score_loop (score_value X QUIETS s)
            (write_moves (moves s) e (generate X QUIETS (pos s))) e ?n i"
      using i partial_insertion_sort_props(5)
      by (simp add: quiet_init_Moves [OF assms])
    also have "\<dots> = write_moves (moves s) e (generate X QUIETS (pos s)) i"
      using i by (simp add: score_loop_outside)
    also have "\<dots> = moves s i"
      using i by (simp add: write_moves_outside)
    finally show "moves (quiet_init X s) i = moves s i" .
  qed
  then show ?thesis by (simp add: bad_captures_def assms)
qed

lemma main_QUIET_INIT:
  assumes st: "stage s = QUIET_INIT" and inv: "main_inv s"
  shows "main_step b s (case_QUIET_INIT X b s)"
proof -
  let ?t = "next_stage (if \<not> b then quiet_init X s else s)"
  from inv st obtain e where e: "endBadCaptures s = Moves e"
    and nn: "Move_none \<notin> set (bad_rest s)"
    by (auto simp: main_inv_def stage_defs)
  have tst: "stage ?t = GOOD_QUIET" using st by (simp add: stage_defs)
  have bl: "bad_list ?t = bad_list s"
    using quiet_init_bad_captures [OF e, of X]
    by (simp add: bad_list_def bad_captures_def next_stage_def)
  have br: "bad_rest s = bad_list s" using st by (simp add: bad_rest_def stage_defs)
  have brt: "bad_rest ?t = bad_list s" using tst bl by (simp add: bad_rest_def stage_defs)
  have gt: "good_rest ?t = []" using tst by (simp add: good_rest_def stage_defs)
  have "main_inv ?t"
    unfolding main_inv_def using tst e nn br brt gt by (simp add: stage_defs)
  from main_GOOD_QUIET [OF tst this]
  show ?thesis
    unfolding case_QUIET_INIT_def
  proof (rule main_step_via)
    show "good_rest s = good_rest ?t" using st gt by (simp add: good_rest_def stage_defs)
    show "bad_rest s = bad_rest ?t" using br brt by simp
    show "ref_rest s = ref_rest ?t" using st tst by (simp add: ref_rest_def stage_defs)
    show "stage s \<le> stage ?t" using st tst by (simp add: stage_defs)
    show "pos ?t = pos s" by simp
    show "ttMove ?t = ttMove s" by simp
  qed
qed

lemma pending_Refutation_not_none: "Move_none \<notin> set (pending Refutation s)"
  by (auto simp: pending_def picks_def)

lemma main_REFUTATION:
  assumes st: "stage s = REFUTATION" and inv: "main_inv s"
  shows "main_step b s (case_REFUTATION X b s)"
proof -
  obtain m s1 where sel: "select Next Refutation s = (m, s1)"
    by (cases "select Next Refutation s")
  have s1: "s1 = s\<lparr>cur := cur s1\<rparr>"
    using select_pure [of Refutation s] by (simp add: sel)
  have f: "moves s1 = moves s" "endBadCaptures s1 = endBadCaptures s" "ttMove s1 = ttMove s"
    "pos s1 = pos s" "stage s1 = stage s"
    by (subst s1, simp)+
  from select_pure [of Refutation s]
  have d: "pending Refutation s = m # pending Refutation s1
      \<or> (m = Move_none \<and> pending Refutation s = [] \<and> remaining s1 = [])"
    by (simp add: sel)
  from inv st obtain e where e: "endBadCaptures s = Moves e"
    and nn: "Move_none \<notin> set (bad_rest s)"
    by (auto simp: main_inv_def stage_defs)
  have br: "bad_rest s = bad_list s" using st by (simp add: bad_rest_def stage_defs)
  have bl: "bad_list s1 = bad_list s" by (rule bad_list_cong) (simp_all add: f)
  have rr: "ref_rest s = pending Refutation s" using st by (simp add: ref_rest_def stage_defs)
  show ?thesis
  proof (cases "m = Move_none")
    case False
    with d have p: "pending Refutation s = m # pending Refutation s1" by simp
    have r: "case_REFUTATION X b s = (m, s1)"
      using False select_prev [OF sel False] by (simp add: case_REFUTATION_def sel)
    have "main_inv s1"
      unfolding main_inv_def good_rest_def bad_rest_def
      using f st e nn br bl by (simp add: stage_defs)
    then show ?thesis
      unfolding r main_step_def good_rest_def bad_rest_def ref_rest_def yield_def
      using False f st bl p by (simp add: stage_defs)
  next
    case True
    have p: "pending Refutation s = []"
    proof (rule ccontr)
      assume "pending Refutation s \<noteq> []"
      with d True have "pending Refutation s = Move_none # pending Refutation s1" by simp
      then have "Move_none \<in> set (pending Refutation s)" by simp
      with pending_Refutation_not_none show False by blast
    qed
    let ?t = "next_stage s1"
    have r: "case_REFUTATION X b s = case_QUIET_INIT X b ?t"
      using True by (simp add: case_REFUTATION_def sel)
    have tst: "stage ?t = QUIET_INIT" using f st by (simp add: stage_defs)
    have blt: "bad_list ?t = bad_list s"
      by (rule bad_list_cong) (simp_all add: f)
    have brt: "bad_rest ?t = bad_list s" using tst blt by (simp add: bad_rest_def stage_defs)
    have "main_inv ?t"
      unfolding main_inv_def good_rest_def using tst f e nn br brt by (simp add: stage_defs)
    from main_QUIET_INIT [OF tst this]
    show ?thesis unfolding r
    proof (rule main_step_via)
      show "good_rest s = good_rest ?t" using st tst by (simp add: good_rest_def stage_defs)
      show "bad_rest s = bad_rest ?t" using br brt by simp
      show "ref_rest s = ref_rest ?t" using rr p tst by (simp add: ref_rest_def stage_defs)
      show "stage s \<le> stage ?t" using st tst by (simp add: stage_defs)
      show "pos ?t = pos s" by (simp add: f)
      show "ttMove ?t = ttMove s" by (simp add: f)
    qed
  qed
qed

lemma pending_refutation_init:
  "pending Refutation (next_stage (refutation_init s)) = ref_list s"
proof -
  let ?t = "next_stage (refutation_init s)"
  let ?k = "if move (refutations s 0) = move (refutations s 2)
            \<or> move (refutations s 1) = move (refutations s 2) then 2 else 3"
  have pk: "picks Refutation ?t = picks Refutation s"
    by (rule picks_cong) simp_all
  have c: "cur ?t = Refutations 0" and e: "endMoves ?t = Refutations ?k"
    by (simp_all add: refutation_init_def Let_def)
  have "remaining ?t = range_of (refutations s) 0 ?k"
    unfolding remaining_def c e by simp
  then show ?thesis
    unfolding pending_def ref_list_def pk by simp
qed

lemma ref_list_cong:
  "refutations t = refutations s \<Longrightarrow> ttMove t = ttMove s \<Longrightarrow> pos t = pos s \<Longrightarrow>
   ref_list t = ref_list s"
proof -
  assume a: "refutations t = refutations s" "ttMove t = ttMove s" "pos t = pos s"
  have "picks Refutation t = picks Refutation s"
    by (rule ext) (simp add: picks_def a)
  then show ?thesis by (simp add: ref_list_def a)
qed

lemma main_GOOD_CAPTURE:
  assumes st: "stage s = GOOD_CAPTURE" and inv: "main_inv s"
  shows "main_step b s (case_GOOD_CAPTURE X b s)"
proof -
  obtain m s1 where sel: "select Next GoodCapture s = (m, s1)"
    by (cases "select Next GoodCapture s")
  have f: "ttMove s1 = ttMove s" "pos s1 = pos s" "stage s1 = stage s"
    using select_stage [of Next GoodCapture s] select_pos [of Next GoodCapture s]
      select_ttMove [of Next GoodCapture s] by (simp_all add: sel)
  from inv st have sh: "good_shape s" and ng: "Move_none \<notin> set (good_rest s)"
    and nb: "Move_none \<notin> set (bad_rest s)"
    by (simp_all add: main_inv_def)
  from select_good [of s] sh
  have sh1: "good_shape s1" and rf: "refutations s1 = refutations s"
    and bt: "bad_total s1 = bad_total s"
    and d: "pending GoodCapture s = m # pending GoodCapture s1
      \<or> (m = Move_none \<and> pending GoodCapture s = [] \<and> remaining s1 = [])"
    by (simp_all add: sel)
  have gr: "good_rest s = pending GoodCapture s" using st by (simp add: good_rest_def)
  have br: "bad_rest s = filter (\<lambda>m. m \<noteq> ttMove s) (map move (bad_total s))"
    using st by (simp add: bad_rest_def)
  have rl: "ref_list s1 = ref_list s" by (rule ref_list_cong) (simp_all add: rf f)
  show ?thesis
  proof (cases "m = Move_none")
    case False
    with d have p: "pending GoodCapture s = m # pending GoodCapture s1" by simp
    have r: "case_GOOD_CAPTURE X b s = (m, s1)"
      using False select_prev [OF sel False] by (simp add: case_GOOD_CAPTURE_def sel)
    have "main_inv s1"
      unfolding main_inv_def good_rest_def bad_rest_def
      using f st sh1 bt ng nb gr br p by simp
    then show ?thesis
      unfolding r main_step_def good_rest_def bad_rest_def ref_rest_def yield_def
      using False f st bt rl p by (simp add: stage_defs)
  next
    case True
    have p: "pending GoodCapture s = []"
    proof (rule ccontr)
      assume "pending GoodCapture s \<noteq> []"
      with d True have "pending GoodCapture s = Move_none # pending GoodCapture s1" by simp
      with ng gr show False by simp
    qed
    have rem: "remaining s1 = []" using d p by auto
    let ?t = "next_stage (refutation_init s1)"
    have r: "case_GOOD_CAPTURE X b s = case_REFUTATION X b ?t"
      using True by (simp add: case_GOOD_CAPTURE_def sel)
    have tst: "stage ?t = REFUTATION" using f st by (simp add: stage_defs)
    from sh1 obtain e where e: "endBadCaptures s1 = Moves e" unfolding good_shape_def by blast
    have blt: "bad_list ?t = bad_list s1" by (rule bad_list_cong) simp_all
    have "bad_total s1 = bad_captures s1" by (simp add: bad_total_def rem)
    then have bl1: "bad_list s1 = filter (\<lambda>m. m \<noteq> ttMove s) (map move (bad_total s))"
      by (simp add: bad_list_def bt f)
    have brt: "bad_rest ?t = bad_rest s" using tst blt bl1 br by (simp add: bad_rest_def stage_defs)
    have "main_inv ?t"
      unfolding main_inv_def good_rest_def using tst e nb brt by (simp add: stage_defs)
    from main_REFUTATION [OF tst this]
    show ?thesis unfolding r
    proof (rule main_step_via)
      show "good_rest s = good_rest ?t" using gr p tst by (simp add: good_rest_def stage_defs)
      show "bad_rest s = bad_rest ?t" using brt by simp
      show "ref_rest s = ref_rest ?t"
        using st tst rl by (simp add: ref_rest_def stage_defs pending_refutation_init)
      show "stage s \<le> stage ?t" using st tst by (simp add: stage_defs)
      show "pos ?t = pos s" by (simp add: f)
      show "ttMove ?t = ttMove s" by (simp add: f)
    qed
  qed
qed

lemma main_next_move:
  assumes "GOOD_CAPTURE \<le> stage s" "stage s \<le> BAD_QUIET" "main_inv s"
  shows "main_step b s (next_move X b s)"
proof -
  from assms(1,2) consider "stage s = GOOD_CAPTURE" | "stage s = REFUTATION"
    | "stage s = QUIET_INIT" | "stage s = GOOD_QUIET" | "stage s = BAD_CAPTURE"
    | "stage s = BAD_QUIET"
    unfolding stage_defs by linarith
  then show ?thesis
  proof cases
    case 1
    then show ?thesis using main_GOOD_CAPTURE assms(3) by (simp add: next_move_GOOD_CAPTURE)
  next
    case 2
    then show ?thesis using main_REFUTATION assms(3) by (simp add: next_move_REFUTATION)
  next
    case 3
    then show ?thesis using main_QUIET_INIT assms(3) by (simp add: next_move_QUIET_INIT)
  next
    case 4
    then show ?thesis using main_GOOD_QUIET assms(3) by (simp add: next_move_GOOD_QUIET)
  next
    case 5
    then show ?thesis using main_BAD_CAPTURE assms(3)
      by (simp add: next_move_BAD_CAPTURE main_inv_def)
  next
    case 6
    then show ?thesis using main_BAD_QUIET by (simp add: next_move_BAD_QUIET)
  qed
qed

subsection \<open>Sequences of calls in the main search\<close>

lemma yields_at_Nil [simp]: "yields_at st [] = []"
  by (simp add: yields_at_def)

lemma yields_at_Cons:
  "yields_at st ((m, stage s') # tr) = yield st (m, s') @ yields_at st tr"
  by (simp add: yields_at_def yield_def)

lemma main_run:
  assumes "GOOD_CAPTURE \<le> stage s" "stage s \<le> BAD_QUIET" "main_inv s"
  shows "yields_at GOOD_CAPTURE (run X bs s) @ good_rest (run_state X bs s) = good_rest s
    \<and> yields_at BAD_CAPTURE (run X bs s) @ bad_rest (run_state X bs s) = bad_rest s
    \<and> yields_at REFUTATION (run X bs s) @ ref_rest (run_state X bs s) = ref_rest s
    \<and> stage (run_state X bs s) \<le> BAD_QUIET
    \<and> (\<forall>(m, st) \<in> set (run X bs s).
          st \<le> stage (run_state X bs s) \<and> st \<noteq> QUIET_INIT \<and> GOOD_CAPTURE \<le> st
          \<and> (m = Move_none \<longrightarrow> st = BAD_QUIET)
          \<and> (m \<noteq> Move_none \<and> (st = GOOD_QUIET \<or> st = BAD_QUIET) \<longrightarrow> False \<in> set bs))"
  using assms
proof (induction bs arbitrary: s)
  case Nil
  then show ?case by simp
next
  case (Cons b bs)
  obtain m s1 where nm: "next_move X b s = (m, s1)" by (cases "next_move X b s")
  from main_next_move [OF Cons.prems, of b X]
  have ms: "main_step b s (m, s1)" by (simp add: nm)
  then have inv1: "main_inv s1" and ge: "stage s \<le> stage s1" and le: "stage s1 \<le> BAD_QUIET"
    and g: "good_rest s = yield GOOD_CAPTURE (m, s1) @ good_rest s1"
    and bd: "bad_rest s = yield BAD_CAPTURE (m, s1) @ bad_rest s1"
    and rf: "ref_rest s = yield REFUTATION (m, s1) @ ref_rest s1"
    and nq: "stage s1 \<noteq> QUIET_INIT"
    and none: "m = Move_none \<longrightarrow> stage s1 = BAD_QUIET"
    and nb: "m \<noteq> Move_none \<and> (stage s1 = GOOD_QUIET \<or> stage s1 = BAD_QUIET) \<longrightarrow> \<not> b"
    by (simp_all add: main_step_def)
  have ge1: "GOOD_CAPTURE \<le> stage s1" using Cons.prems(1) ge by simp
  note IH = Cons.IH [OF ge1 le inv1]
  note I1 = IH [THEN conjunct1]
  note I2 = IH [THEN conjunct2, THEN conjunct1]
  note I3 = IH [THEN conjunct2, THEN conjunct2, THEN conjunct1]
  note I4 = IH [THEN conjunct2, THEN conjunct2, THEN conjunct2, THEN conjunct1]
  note I5 = IH [THEN conjunct2, THEN conjunct2, THEN conjunct2, THEN conjunct2]
  have mono: "stage s1 \<le> stage (run_state X bs s1)"
  proof (cases bs)
    case Nil
    then show ?thesis by simp
  next
    case (Cons b' bs')
    obtain m2 s2 where n2: "next_move X b' s1 = (m2, s2)" by (cases "next_move X b' s1")
    from main_next_move [OF ge1 le inv1, of b' X] have "stage s1 \<le> stage s2"
      by (simp add: n2 main_step_def)
    moreover have "(m2, stage s2) \<in> set (run X bs s1)" by (simp add: Cons n2)
    with I5 have "stage s2 \<le> stage (run_state X bs s1)" by fastforce
    ultimately show ?thesis by simp
  qed
  have r: "run X (b # bs) s = (m, stage s1) # run X bs s1"
    and rs: "run_state X (b # bs) s = run_state X bs s1"
    by (simp_all add: nm)
  have c1: "yields_at GOOD_CAPTURE (run X (b # bs) s) @ good_rest (run_state X (b # bs) s)
      = good_rest s"
    unfolding r rs yields_at_Cons g using I1 by simp
  have c2: "yields_at BAD_CAPTURE (run X (b # bs) s) @ bad_rest (run_state X (b # bs) s)
      = bad_rest s"
    unfolding r rs yields_at_Cons bd using I2 by simp
  have c3: "yields_at REFUTATION (run X (b # bs) s) @ ref_rest (run_state X (b # bs) s)
      = ref_rest s"
    unfolding r rs yields_at_Cons rf using I3 by simp
  have c4: "stage (run_state X (b # bs) s) \<le> BAD_QUIET" unfolding rs by (rule I4)
  have hd: "stage s1 \<le> stage (run_state X bs s1) \<and> stage s1 \<noteq> QUIET_INIT
      \<and> GOOD_CAPTURE \<le> stage s1 \<and> (m = Move_none \<longrightarrow> stage s1 = BAD_QUIET)
      \<and> (m \<noteq> Move_none \<and> (stage s1 = GOOD_QUIET \<or> stage s1 = BAD_QUIET)
           \<longrightarrow> False \<in> set (b # bs))"
    using mono nq ge1 none nb by simp
  have tl: "\<forall>(m, st) \<in> set (run X bs s1).
          st \<le> stage (run_state X bs s1) \<and> st \<noteq> QUIET_INIT \<and> GOOD_CAPTURE \<le> st
          \<and> (m = Move_none \<longrightarrow> st = BAD_QUIET)
          \<and> (m \<noteq> Move_none \<and> (st = GOOD_QUIET \<or> st = BAD_QUIET)
               \<longrightarrow> False \<in> set (b # bs))"
    using I5 by fastforce
  have c5: "\<forall>(m, st) \<in> set (run X (b # bs) s).
          st \<le> stage (run_state X (b # bs) s) \<and> st \<noteq> QUIET_INIT \<and> GOOD_CAPTURE \<le> st
          \<and> (m = Move_none \<longrightarrow> st = BAD_QUIET)
          \<and> (m \<noteq> Move_none \<and> (st = GOOD_QUIET \<or> st = BAD_QUIET)
               \<longrightarrow> False \<in> set (b # bs))"
    unfolding r rs using hd tl by simp
  show ?case
    by (intro conjI) (rule c1, rule c2, rule c3, rule c4, rule c5)
qed

subsection \<open>The captures after their initialisation stage\<close>

lemma score_value_CAPTURES: "score_value X CAPTURES s = capture_value X (pos s)"
  by (rule ext) (simp add: score_value_def capture_value_def)

lemma mset_sorted_captures:
  "mset (sorted_captures X s)
     = mset (map (\<lambda>m. \<lparr>move = m, value' = capture_value X (pos s) m\<rparr>) (generate X CAPTURES (pos s)))"
  using scored_generated [of "score_value X CAPTURES s" "moves s" 0 "generate X CAPTURES (pos s)"]
  by (simp add: sorted_captures_def capture_init_Moves mset_partial_insertion_sort
      score_value_CAPTURES)

lemma set_sorted_captures:
  "set (sorted_captures X s)
     = (\<lambda>m. \<lparr>move = m, value' = capture_value X (pos s) m\<rparr>) ` set (generate X CAPTURES (pos s))"
  using mset_sorted_captures [of X s, THEN arg_cong, of set_mset] by simp

lemma set_moves_sorted_captures:
  "set (map move (sorted_captures X s)) = set (generate X CAPTURES (pos s))"
  by (simp add: set_sorted_captures image_image)

lemma value_sorted_captures:
  "x \<in> set (sorted_captures X s) \<Longrightarrow> value' x = capture_value X (pos s) (move x)"
  by (auto simp: set_sorted_captures)

lemma descending_sorted_captures:
  assumes "\<forall>m\<in>set (generate X CAPTURES (pos s)). INT_MIN \<le> capture_value X (pos s) m"
  shows "descending (sorted_captures X s)"
proof -
  let ?g = "generate X CAPTURES (pos s)"
  let ?a = "score_loop (score_value X CAPTURES s) (write_moves (moves s) 0 ?g) 0 (length ?g)"
  have r: "range_of ?a 0 (length ?g) = map (\<lambda>m. \<lparr>move = m, value' = capture_value X (pos s) m\<rparr>) ?g"
    using scored_generated [of "score_value X CAPTURES s" "moves s" 0 ?g]
    by (simp add: score_value_CAPTURES)
  have "filter (\<lambda>x. INT_MIN \<le> value' x) (range_of ?a 0 (length ?g)) = range_of ?a 0 (length ?g)"
    unfolding r using assms by (intro filter_True) auto
  then have k: "length (filter (\<lambda>x. INT_MIN \<le> value' x) (range_of ?a 0 (length ?g))) = length ?g"
    by simp
  have sc: "sorted_captures X s = range_of (partial_insertion_sort ?a 0 (length ?g) INT_MIN) 0 (length ?g)"
    by (simp add: sorted_captures_def capture_init_Moves)
  from partial_insertion_sort_props(2) [where a = ?a and b = 0 and e = "length ?g" and limit = INT_MIN]
  show ?thesis unfolding k sc by simp
qed

lemma capture_init_state:
  "cur (capture_init X s) = Moves 0"
  "endMoves (capture_init X s) = Moves (length (generate X CAPTURES (pos s)))"
  "endBadCaptures (capture_init X s) = Moves 0"
  "remaining (capture_init X s) = sorted_captures X s"
  "bad_captures (capture_init X s) = []"
  by (simp_all add: capture_init_Moves remaining_def sorted_captures_def bad_captures_def)

lemma picks_GoodCapture_cong:
  "ttMove t = ttMove s \<Longrightarrow> pos t = pos s \<Longrightarrow> picks GoodCapture t = picks GoodCapture s"
  by (rule ext) (simp add: picks_def)

lemma rejected_cong: "ttMove t = ttMove s \<Longrightarrow> pos t = pos s \<Longrightarrow> rejected t = rejected s"
  by (rule ext) (simp add: rejected_def)

lemma filter_rejected_ne:
  "filter (\<lambda>m. m \<noteq> ttMove s) (map move (filter (rejected s) xs)) = map move (filter (rejected s) xs)"
  by (induction xs) (auto simp: rejected_def)

lemma main_after_capture_init:
  assumes st: "stage s = CAPTURE_INIT" and nn: "Move_none \<notin> set (generate X CAPTURES (pos s))"
  shows "main_inv (capture_init X s)" and "stage (capture_init X s) = GOOD_CAPTURE"
    and "good_rest (capture_init X s) = map move (filter (picks GoodCapture s) (sorted_captures X s))"
    and "bad_rest (capture_init X s) = map move (filter (rejected s) (sorted_captures X s))"
    and "ref_rest (capture_init X s) = ref_list s"
proof -
  let ?t = "capture_init X s"
  show tst: "stage ?t = GOOD_CAPTURE" using st by (simp add: stage_defs)
  have pk: "picks GoodCapture ?t = picks GoodCapture s"
    by (rule picks_GoodCapture_cong) simp_all
  have rj: "rejected ?t = rejected s" by (rule rejected_cong) simp_all
  show g: "good_rest ?t = map move (filter (picks GoodCapture s) (sorted_captures X s))"
    using tst by (simp add: good_rest_def pending_def capture_init_state pk)
  show b: "bad_rest ?t = map move (filter (rejected s) (sorted_captures X s))"
    using tst by (simp add: bad_rest_def bad_total_def capture_init_state rj filter_rejected_ne)
  show "ref_rest ?t = ref_list s"
    using tst ref_list_cong [of ?t s] by (simp add: ref_rest_def)
  have sh: "good_shape ?t" by (simp add: good_shape_def capture_init_state)
  have "set (good_rest ?t) \<subseteq> set (map move (sorted_captures X s))" unfolding g by auto
  moreover have "set (bad_rest ?t) \<subseteq> set (map move (sorted_captures X s))" unfolding b by auto
  ultimately have "Move_none \<notin> set (good_rest ?t)" "Move_none \<notin> set (bad_rest ?t)"
    using nn unfolding set_moves_sorted_captures by blast+
  then show "main_inv ?t" using tst sh by (simp add: main_inv_def)
qed

lemma next_move_capture_init:
  assumes "stage s = CAPTURE_INIT \<or> stage s = PROBCUT_INIT \<or> stage s = QCAPTURE_INIT"
  shows "next_move X b s = next_move X b (capture_init X s)"
proof -
  from assms consider "stage s = CAPTURE_INIT" | "stage s = PROBCUT_INIT"
    | "stage s = QCAPTURE_INIT" by blast
  then show ?thesis
  proof cases
    case 1
    then have "stage (capture_init X s) = GOOD_CAPTURE" by (simp add: stage_defs)
    then show ?thesis
      by (simp only: next_move_CAPTURE_INIT [OF 1] next_move_GOOD_CAPTURE)
  next
    case 2
    then have "stage (capture_init X s) = PROBCUT" by (simp add: stage_defs)
    then show ?thesis
      by (simp only: next_move_PROBCUT_INIT [OF 2] next_move_PROBCUT)
  next
    case 3
    then have "stage (capture_init X s) = QCAPTURE" by (simp add: stage_defs)
    then show ?thesis
      by (simp only: next_move_QCAPTURE_INIT [OF 3] next_move_QCAPTURE)
  qed
qed

lemma run_capture_init:
  assumes "stage s = CAPTURE_INIT \<or> stage s = PROBCUT_INIT \<or> stage s = QCAPTURE_INIT"
  shows "run X bs s = run X bs (capture_init X s)"
proof (cases bs)
  case Nil
  then show ?thesis by simp
next
  case (Cons b bs')
  show ?thesis unfolding Cons run.simps next_move_capture_init [OF assms] ..
qed

lemma sorted_captures_next_stage [simp]:
  "sorted_captures X (next_stage s) = sorted_captures X s"
  by (simp add: sorted_captures_def capture_init_Moves score_value_CAPTURES)

text \<open>A picker in the main hash-move stage or in the stage that follows it: the moves
  it returns as good captures, as bad captures and as refutations are the beginnings of
  three lists fixed by the position, and the whole lists once a call has returned none.\<close>

lemma main_from_start:
  assumes st: "stage s = MAIN_TT \<or> stage s = CAPTURE_INIT"
    and nn: "Move_none \<notin> set (generate X CAPTURES (pos s))"
    and tt: "stage s = MAIN_TT \<longrightarrow> ttMove s \<noteq> Move_none"
  defines "G \<equiv> map move (filter (picks GoodCapture s) (sorted_captures X s))"
    and "B \<equiv> map move (filter (rejected s) (sorted_captures X s))"
  shows "\<exists>g b r. yields_at GOOD_CAPTURE (run X bs s) @ g = G
           \<and> yields_at BAD_CAPTURE (run X bs s) @ b = B
           \<and> yields_at REFUTATION (run X bs s) @ r = ref_list s
           \<and> (Move_none \<in> fst ` set (run X bs s) \<longrightarrow> g = [] \<and> b = [] \<and> r = [])"
    and "\<forall>(m, st) \<in> set (run X bs s). st \<le> BAD_QUIET \<and> st \<noteq> QUIET_INIT \<and> st \<noteq> MAIN_TT
           \<and> (st = CAPTURE_INIT \<longrightarrow> m = ttMove s)
           \<and> (m \<noteq> Move_none \<and> (st = GOOD_QUIET \<or> st = BAD_QUIET) \<longrightarrow> False \<in> set bs)"
proof -
  have from1: "(\<exists>g b r. yields_at GOOD_CAPTURE (run X bs' s') @ g = G
           \<and> yields_at BAD_CAPTURE (run X bs' s') @ b = B
           \<and> yields_at REFUTATION (run X bs' s') @ r = ref_list s
           \<and> (Move_none \<in> fst ` set (run X bs' s') \<longrightarrow> g = [] \<and> b = [] \<and> r = []))
        \<and> (\<forall>(m, st) \<in> set (run X bs' s'). st \<le> BAD_QUIET \<and> st \<noteq> QUIET_INIT
           \<and> GOOD_CAPTURE \<le> st
           \<and> (m \<noteq> Move_none \<and> (st = GOOD_QUIET \<or> st = BAD_QUIET) \<longrightarrow> False \<in> set bs'))"
    if s': "stage s' = CAPTURE_INIT" "pos s' = pos s" "ttMove s' = ttMove s"
      "refutations s' = refutations s" "sorted_captures X s' = sorted_captures X s"
    for s' bs'
  proof -
    let ?t = "capture_init X s'"
    have nn': "Move_none \<notin> set (generate X CAPTURES (pos s'))" using nn s' by simp
    note a = main_after_capture_init [OF s'(1) nn']
    have pk: "picks GoodCapture s' = picks GoodCapture s"
      by (rule picks_GoodCapture_cong) (simp_all add: s')
    have rj: "rejected s' = rejected s" by (rule rejected_cong) (simp_all add: s')
    have rl: "ref_list s' = ref_list s" by (rule ref_list_cong) (simp_all add: s')
    have g0: "good_rest ?t = G" and b0: "bad_rest ?t = B" and r0: "ref_rest ?t = ref_list s"
      using a(3,4,5) by (simp_all add: G_def B_def pk rj rl s')
    have ge: "GOOD_CAPTURE \<le> stage ?t" and le: "stage ?t \<le> BAD_QUIET"
      using a(2) by (simp_all add: stage_defs)
    note m = main_run [OF ge le a(1), of X bs']
    note m1 = m [THEN conjunct1] and m2 = m [THEN conjunct2, THEN conjunct1]
      and m3 = m [THEN conjunct2, THEN conjunct2, THEN conjunct1]
      and m4 = m [THEN conjunct2, THEN conjunct2, THEN conjunct2, THEN conjunct1]
      and m5 = m [THEN conjunct2, THEN conjunct2, THEN conjunct2, THEN conjunct2]
    let ?sf = "run_state X bs' ?t"
    have ex: "good_rest ?sf = [] \<and> bad_rest ?sf = [] \<and> ref_rest ?sf = []"
      if "Move_none \<in> fst ` set (run X bs' ?t)"
    proof -
      from that obtain st where "(Move_none, st) \<in> set (run X bs' ?t)" by auto
      with m5 have "st \<le> stage ?sf" "st = BAD_QUIET" by fastforce+
      with m4 have "stage ?sf = BAD_QUIET" by simp
      then show ?thesis by (simp add: good_rest_def bad_rest_def ref_rest_def stage_defs)
    qed
    have r: "run X bs' s' = run X bs' ?t" using s'(1) by (intro run_capture_init) simp
    have "yields_at GOOD_CAPTURE (run X bs' s') @ good_rest ?sf = G
           \<and> yields_at BAD_CAPTURE (run X bs' s') @ bad_rest ?sf = B
           \<and> yields_at REFUTATION (run X bs' s') @ ref_rest ?sf = ref_list s
           \<and> (Move_none \<in> fst ` set (run X bs' s')
                \<longrightarrow> good_rest ?sf = [] \<and> bad_rest ?sf = [] \<and> ref_rest ?sf = [])"
      unfolding r using m1 m2 m3 ex by (simp add: g0 b0 r0)
    then have "\<exists>g b r. yields_at GOOD_CAPTURE (run X bs' s') @ g = G
           \<and> yields_at BAD_CAPTURE (run X bs' s') @ b = B
           \<and> yields_at REFUTATION (run X bs' s') @ r = ref_list s
           \<and> (Move_none \<in> fst ` set (run X bs' s') \<longrightarrow> g = [] \<and> b = [] \<and> r = [])"
      by blast
    moreover have "\<forall>(m, st) \<in> set (run X bs' s'). st \<le> BAD_QUIET \<and> st \<noteq> QUIET_INIT
           \<and> GOOD_CAPTURE \<le> st
           \<and> (m \<noteq> Move_none \<and> (st = GOOD_QUIET \<or> st = BAD_QUIET) \<longrightarrow> False \<in> set bs')"
      unfolding r using m5 m4 by fastforce
    ultimately show ?thesis by blast
  qed
  have both: "(\<exists>g b r. yields_at GOOD_CAPTURE (run X bs s) @ g = G
           \<and> yields_at BAD_CAPTURE (run X bs s) @ b = B
           \<and> yields_at REFUTATION (run X bs s) @ r = ref_list s
           \<and> (Move_none \<in> fst ` set (run X bs s) \<longrightarrow> g = [] \<and> b = [] \<and> r = []))
     \<and> (\<forall>(m, st) \<in> set (run X bs s). st \<le> BAD_QUIET \<and> st \<noteq> QUIET_INIT \<and> st \<noteq> MAIN_TT
           \<and> (st = CAPTURE_INIT \<longrightarrow> m = ttMove s)
           \<and> (m \<noteq> Move_none \<and> (st = GOOD_QUIET \<or> st = BAD_QUIET) \<longrightarrow> False \<in> set bs))"
  proof (cases "stage s = CAPTURE_INIT")
    case True
    from from1 [OF True refl refl refl refl, of bs]
    show ?thesis by (fastforce simp: stage_defs)
  next
    case False
    with st have s0: "stage s = MAIN_TT" by simp
    then have ne: "ttMove s \<noteq> Move_none" using tt by simp
    show ?thesis
    proof (cases bs)
      case Nil
      then show ?thesis
        using from1 [of "next_stage s" "[]"] s0 by (simp add: stage_defs)
    next
      case (Cons b bs')
      have nm: "next_move X b s = (ttMove s, next_stage s)"
        by (rule next_move_TT) (simp add: is_tt_stage_def s0)
      have r: "run X bs s = (ttMove s, CAPTURE_INIT) # run X bs' (next_stage s)"
        using s0 by (simp add: Cons nm stage_defs)
      have s1: "stage (next_stage s) = CAPTURE_INIT" using s0 by (simp add: stage_defs)
      note f = from1 [OF s1, of bs', simplified]
      have y: "yields_at k (run X bs s) = yields_at k (run X bs' (next_stage s))"
        if "k \<noteq> CAPTURE_INIT" for k
        unfolding r using that by (simp add: yields_at_def)
      have n: "Move_none \<in> fst ` set (run X bs s)
          \<longleftrightarrow> Move_none \<in> fst ` set (run X bs' (next_stage s))"
        unfolding r using ne by auto
      have "\<exists>g b r. yields_at GOOD_CAPTURE (run X bs s) @ g = G
           \<and> yields_at BAD_CAPTURE (run X bs s) @ b = B
           \<and> yields_at REFUTATION (run X bs s) @ r = ref_list s
           \<and> (Move_none \<in> fst ` set (run X bs s) \<longrightarrow> g = [] \<and> b = [] \<and> r = [])"
        unfolding n using f [THEN conjunct1]
        by (simp add: y stage_defs)
      moreover have "\<forall>(m, st) \<in> set (run X bs s). st \<le> BAD_QUIET \<and> st \<noteq> QUIET_INIT
           \<and> st \<noteq> MAIN_TT \<and> (st = CAPTURE_INIT \<longrightarrow> m = ttMove s)
           \<and> (m \<noteq> Move_none \<and> (st = GOOD_QUIET \<or> st = BAD_QUIET) \<longrightarrow> False \<in> set bs)"
        unfolding r using f [THEN conjunct2] by (fastforce simp: stage_defs Cons)
      ultimately show ?thesis by blast
    qed
  qed
  from both show "\<exists>g b r. yields_at GOOD_CAPTURE (run X bs s) @ g = G
           \<and> yields_at BAD_CAPTURE (run X bs s) @ b = B
           \<and> yields_at REFUTATION (run X bs s) @ r = ref_list s
           \<and> (Move_none \<in> fst ` set (run X bs s) \<longrightarrow> g = [] \<and> b = [] \<and> r = [])"
    and "\<forall>(m, st) \<in> set (run X bs s). st \<le> BAD_QUIET \<and> st \<noteq> QUIET_INIT \<and> st \<noteq> MAIN_TT
           \<and> (st = CAPTURE_INIT \<longrightarrow> m = ttMove s)
           \<and> (m \<noteq> Move_none \<and> (st = GOOD_QUIET \<or> st = BAD_QUIET) \<longrightarrow> False \<in> set bs)"
    by blast+
qed

subsection \<open>The other contexts, call by call\<close>

lemma run_tt_stage:
  "is_tt_stage (stage s) \<Longrightarrow>
   run X (b # bs) s = (ttMove s, stage s + 1) # run X bs (next_stage s)"
  by (simp add: next_move_TT)

lemma select_pure_remaining:
  assumes "P \<noteq> GoodCapture"
  shows "set (remaining (snd (select Next P s))) \<subseteq> set (remaining s)"
proof (induction s rule: select_cases [where T = Next and P = P])
  case (exhausted s)
  then show ?case by (simp add: select_done)
next
  case (found s)
  then show ?case
    by (auto simp: select_found snd_select_test_pure [OF assms] remaining_ptr_less)
next
  case (skip s)
  then show ?case
    by (auto simp: select_skip snd_select_test_pure [OF assms] remaining_ptr_less)
qed

lemma pending_subset: "set (pending P s) \<subseteq> move ` set (remaining s)"
  by (auto simp: pending_def)

text \<open>A stage that only calls \<open>select\<close> with a predicate without effect: the move
  returned is none or one of the remaining range, and the range does not grow.\<close>

lemma select_pure_in_range:
  assumes "P \<noteq> GoodCapture" "move ` set (remaining s) \<subseteq> C"
  shows "(fst (select Next P s) = Move_none \<or> fst (select Next P s) \<in> C)
    \<and> move ` set (remaining (snd (select Next P s))) \<subseteq> C"
proof -
  have "fst (select Next P s) \<in> C" if "fst (select Next P s) \<noteq> Move_none"
    using select_pure_member [OF assms(1) that] pending_subset [of P s] assms(2) by blast
  moreover have "move ` set (remaining (snd (select Next P s))) \<subseteq> C"
    using select_pure_remaining [OF assms(1), of s] assms(2) by blast
  ultimately show ?thesis by blast
qed

lemma probcut_run:
  assumes "stage s = PROBCUT" "move ` set (remaining s) \<subseteq> C" "(m, st) \<in> set (run X bs s)"
  shows "st = PROBCUT \<and> (m = Move_none \<or> m \<in> C)"
  using assms
proof (induction bs arbitrary: s)
  case Nil
  then show ?case by simp
next
  case (Cons b bs)
  let ?r = "select Next SeeGeThreshold s"
  have nm: "next_move X b s = ?r"
    by (simp add: next_move_PROBCUT [OF Cons.prems(1)] case_PROBCUT_def)
  have st1: "stage (snd ?r) = PROBCUT" using Cons.prems(1) by simp
  from select_pure_in_range [OF _ Cons.prems(2), of SeeGeThreshold]
  have in_C: "fst ?r = Move_none \<or> fst ?r \<in> C" and rem: "move ` set (remaining (snd ?r)) \<subseteq> C"
    by simp_all
  from Cons.prems(3) have "(m, st) = (fst ?r, stage (snd ?r)) \<or> (m, st) \<in> set (run X bs (snd ?r))"
    by (simp add: nm split_beta)
  then show ?case
  proof
    assume "(m, st) = (fst ?r, stage (snd ?r))"
    then show ?thesis using st1 in_C by auto
  next
    assume "(m, st) \<in> set (run X bs (snd ?r))"
    from Cons.IH [OF st1 rem this] show ?thesis .
  qed
qed

lemma qcheck_run:
  assumes "stage s = QCHECK_INIT \<or> stage s = QCHECK" "(m, st) \<in> set (run X bs s)"
  shows "st = QCHECK"
  using assms
proof (induction bs arbitrary: s)
  case Nil
  then show ?case by simp
next
  case (Cons b bs)
  have st1: "stage (snd (next_move X b s)) = QCHECK"
  proof (cases "stage s = QCHECK")
    case True
    then show ?thesis by (simp add: next_move_QCHECK case_QCHECK_def)
  next
    case False
    with Cons.prems(1) have i: "stage s = QCHECK_INIT" by simp
    show ?thesis
      by (simp add: next_move_QCHECK_INIT [OF i] case_QCHECK_INIT_def case_QCHECK_def i
          stage_defs)
  qed
  from Cons.prems(2) have "(m, st) = (fst (next_move X b s), stage (snd (next_move X b s)))
      \<or> (m, st) \<in> set (run X bs (snd (next_move X b s)))"
    by (simp add: split_beta)
  then show ?case
  proof
    assume "(m, st) = (fst (next_move X b s), stage (snd (next_move X b s)))"
    then show ?thesis using st1 by simp
  next
    assume "(m, st) \<in> set (run X bs (snd (next_move X b s)))"
    from Cons.IH [OF _ this] st1 show ?thesis by simp
  qed
qed

lemma qcapture_run:
  assumes "stage s = QCAPTURE" "move ` set (remaining s) \<subseteq> C" "(m, st) \<in> set (run X bs s)"
  shows "(st = QCAPTURE \<and> (m = Move_none \<or> m \<in> C)) \<or> st = QCHECK"
  using assms
proof (induction bs arbitrary: s)
  case Nil
  then show ?case by simp
next
  case (Cons b bs)
  obtain m1 s1 where sel: "select Next Always s = (m1, s1)" by (cases "select Next Always s")
  have st1: "stage s1 = QCAPTURE"
    using select_stage [of Next Always s] Cons.prems(1) by (simp add: sel)
  from select_pure_in_range [OF _ Cons.prems(2), of Always]
  have in_C: "m1 = Move_none \<or> m1 \<in> C" and rem: "move ` set (remaining s1) \<subseteq> C"
    by (simp_all add: sel)
  let ?r = "next_move X b s"
  have nm: "?r = case_QCAPTURE X s" by (rule next_move_QCAPTURE [OF Cons.prems(1)])
  from Cons.prems(3) have mem: "(m, st) = (fst ?r, stage (snd ?r)) \<or> (m, st) \<in> set (run X bs (snd ?r))"
    by (simp add: split_beta)
  consider (found) "m1 \<noteq> Move_none" | (stop) "m1 = Move_none" "depth s1 \<noteq> DEPTH_QS_CHECKS X"
    | (checks) "m1 = Move_none" "depth s1 = DEPTH_QS_CHECKS X" by blast
  then show ?case
  proof cases
    case found
    then have r: "?r = (m1, s1)"
      using select_prev [OF sel found] by (simp add: nm case_QCAPTURE_def sel)
    from mem show ?thesis unfolding r
    proof
      assume "(m, st) = (fst (m1, s1), stage (snd (m1, s1)))"
      then show ?thesis using st1 in_C by auto
    next
      assume "(m, st) \<in> set (run X bs (snd (m1, s1)))"
      then show ?thesis using Cons.IH [OF st1 rem] by simp
    qed
  next
    case stop
    then have r: "?r = (Move_none, s1)" by (simp add: nm case_QCAPTURE_def sel)
    from mem show ?thesis unfolding r
    proof
      assume "(m, st) = (fst (Move_none, s1), stage (snd (Move_none, s1)))"
      then show ?thesis using st1 by auto
    next
      assume "(m, st) \<in> set (run X bs (snd (Move_none, s1)))"
      then show ?thesis using Cons.IH [OF st1 rem] by simp
    qed
  next
    case checks
    then have r: "?r = case_QCHECK_INIT X (next_stage s1)"
      by (simp add: nm case_QCAPTURE_def sel)
    have st2: "stage (snd ?r) = QCHECK"
      unfolding r using st1 by (simp add: case_QCHECK_INIT_def case_QCHECK_def stage_defs)
    from mem show ?thesis
    proof
      assume "(m, st) = (fst ?r, stage (snd ?r))"
      then show ?thesis using st2 by simp
    next
      assume "(m, st) \<in> set (run X bs (snd ?r))"
      from qcheck_run [OF _ this] st2 show ?thesis by simp
    qed
  qed
qed

lemma evasion_run:
  assumes "stage s = EVASION_INIT \<or> stage s = EVASION" "(m, st) \<in> set (run X bs s)"
  shows "st = EVASION"
  using assms
proof (induction bs arbitrary: s)
  case Nil
  then show ?case by simp
next
  case (Cons b bs)
  have st1: "stage (snd (next_move X b s)) = EVASION"
  proof (cases "stage s = EVASION")
    case True
    then show ?thesis by (simp add: next_move_EVASION case_EVASION_def)
  next
    case False
    with Cons.prems(1) have i: "stage s = EVASION_INIT" by simp
    show ?thesis
      by (simp add: next_move_EVASION_INIT [OF i] case_EVASION_INIT_def case_EVASION_def i
          stage_defs)
  qed
  from Cons.prems(2) have "(m, st) = (fst (next_move X b s), stage (snd (next_move X b s)))
      \<or> (m, st) \<in> set (run X bs (snd (next_move X b s)))"
    by (simp add: split_beta)
  then show ?case
  proof
    assume "(m, st) = (fst (next_move X b s), stage (snd (next_move X b s)))"
    then show ?thesis using st1 by simp
  next
    assume "(m, st) \<in> set (run X bs (snd (next_move X b s)))"
    from Cons.IH [OF _ this] st1 show ?thesis by simp
  qed
qed

text \<open>From a hash-move stage on: the first call returns the hash move, and the others
  are those of the stage that follows.\<close>

lemma run_from_tt:
  assumes "is_tt_stage (stage s)" "(m, st) \<in> set (run X bs s)"
  shows "m = ttMove s \<or> (\<exists>bs'. (m, st) \<in> set (run X bs' (next_stage s)) \<and> set bs' \<subseteq> set bs)"
proof (cases bs)
  case Nil
  with assms(2) show ?thesis by simp
next
  case (Cons b bs')
  from assms(2) have "m = ttMove s \<or> (m, st) \<in> set (run X bs' (next_stage s))"
    unfolding Cons run_tt_stage [OF assms(1)] by auto
  then show ?thesis using Cons by auto
qed

subsection \<open>From the constructors on\<close>

lemma stage_main_not_in_check:
  "\<not> checkers p \<Longrightarrow>
   (stage (MovePicker_main s0 p ttm d mh cph ch ph cm killers) = MAIN_TT
    \<or> stage (MovePicker_main s0 p ttm d mh cph ch ph cm killers) = CAPTURE_INIT)
   \<and> (stage (MovePicker_main s0 p ttm d mh cph ch ph cm killers) = MAIN_TT
        \<longrightarrow> ttm \<noteq> Move_none)"
  by (simp add: MovePicker_main_def stage_defs)

lemma count_list_le1_distinct: "distinct xs \<Longrightarrow> count_list xs x \<le> 1"
  by (induction xs) (auto simp: count_list_0_iff)

lemma in_yields_at: "(m, st) \<in> set tr \<Longrightarrow> m \<noteq> Move_none \<Longrightarrow> m \<in> set (yields_at st tr)"
  by (force simp: yields_at_def)

lemma ref_list_main:
  "ref_list (MovePicker_main s0 p ttm d mh cph ch ph cm killers)
     = filter (\<lambda>m. m \<noteq> ttm \<and> m \<noteq> Move_none \<and> \<not> capture_stage p m \<and> pseudo_legal p m)
         (if killers 0 = cm \<or> killers 1 = cm then [killers 0, killers 1]
          else [killers 0, killers 1, cm])"
proof -
  let ?s = "MovePicker_main s0 p ttm d mh cph ch ph cm killers"
  have r: "refutations ?s 0 = \<lparr>move = killers 0, value' = 0\<rparr>"
    "refutations ?s 1 = \<lparr>move = killers 1, value' = 0\<rparr>"
    "refutations ?s 2 = \<lparr>move = cm, value' = 0\<rparr>"
    by (simp_all add: MovePicker_main_def)
  have r1: "refutations ?s (Suc 0) = \<lparr>move = killers 1, value' = 0\<rparr>" using r(2) by simp
  have pk: "picks Refutation ?s = (\<lambda>x. move x \<noteq> ttm \<and> move x \<noteq> Move_none
      \<and> \<not> capture_stage p (move x) \<and> pseudo_legal p (move x))"
    by (rule ext) (simp add: picks_def)
  have two: "range_of (refutations ?s) 0 2 = [refutations ?s 0, refutations ?s (Suc 0)]"
    by (simp add: range_of_def upt_rec numeral_2_eq_2)
  have three: "range_of (refutations ?s) 0 3
      = [refutations ?s 0, refutations ?s (Suc 0), refutations ?s 2]"
    by (simp add: range_of_def upt_rec numeral_3_eq_3 numeral_2_eq_2)
  show ?thesis
    unfolding ref_list_def pk r by (simp add: two three r r1)
qed

lemma after_capture_init_range:
  "move ` set (remaining (capture_init X s)) \<subseteq> set (generate X CAPTURES (pos s))"
  using set_moves_sorted_captures [of X s] by (simp add: capture_init_state)

lemma prefix_subset: "xs @ ys = zs \<Longrightarrow> set xs \<subseteq> set zs"
  by auto

text \<open>With \<^verbatim>\<open>skipQuiets\<close> in every call, from any stage a constructor can leave the
  picker in: a move returned is the hash move, a generated capture, or comes from the
  refutation, evasion or quiet-check stage.\<close>

lemma skip_quiets_run:
  assumes start: "stage s = MAIN_TT \<or> stage s = CAPTURE_INIT \<or> stage s = EVASION_TT
      \<or> stage s = EVASION_INIT \<or> stage s = PROBCUT_TT \<or> stage s = PROBCUT_INIT
      \<or> stage s = QSEARCH_TT \<or> stage s = QCAPTURE_INIT"
    and tt: "is_tt_stage (stage s) \<longrightarrow> ttMove s \<noteq> Move_none"
    and nn: "Move_none \<notin> set (generate X CAPTURES (pos s))"
    and flags: "\<forall>b\<in>set bs. b"
    and mem: "(m, st) \<in> set (run X bs s)"
  shows "m = Move_none \<or> m \<in> set (generate X CAPTURES (pos s)) \<or> m = ttMove s
    \<or> st = REFUTATION \<or> st = EVASION \<or> st = QCHECK"
proof -
  let ?C = "set (generate X CAPTURES (pos s))"
  have after_tt: "m = ttMove s \<or> Q"
    if "is_tt_stage (stage s)"
      and "\<And>bs'. (m, st) \<in> set (run X bs' (next_stage s)) \<Longrightarrow> Q" for Q
    using run_from_tt [OF that(1) mem] that(2) by blast
  have probcut: "st = PROBCUT \<and> (m = Move_none \<or> m \<in> ?C)"
    if "stage s' = PROBCUT_INIT" "pos s' = pos s" "(m, st) \<in> set (run X bs' s')" for s' bs'
  proof -
    have "(m, st) \<in> set (run X bs' (capture_init X s'))"
      using that(3) run_capture_init [of s' X bs'] that(1) by simp
    moreover have "stage (capture_init X s') = PROBCUT" using that(1) by (simp add: stage_defs)
    moreover have "move ` set (remaining (capture_init X s')) \<subseteq> ?C"
      using after_capture_init_range [of X s'] that(2) by simp
    ultimately show ?thesis by (rule probcut_run [rotated 2])
  qed
  have qsearch: "(st = QCAPTURE \<and> (m = Move_none \<or> m \<in> ?C)) \<or> st = QCHECK"
    if "stage s' = QCAPTURE_INIT" "pos s' = pos s" "(m, st) \<in> set (run X bs' s')" for s' bs'
  proof -
    have "(m, st) \<in> set (run X bs' (capture_init X s'))"
      using that(3) run_capture_init [of s' X bs'] that(1) by simp
    moreover have "stage (capture_init X s') = QCAPTURE" using that(1) by (simp add: stage_defs)
    moreover have "move ` set (remaining (capture_init X s')) \<subseteq> ?C"
      using after_capture_init_range [of X s'] that(2) by simp
    ultimately show ?thesis by (rule qcapture_run [rotated 2])
  qed
  from start consider (main) "stage s = MAIN_TT \<or> stage s = CAPTURE_INIT"
    | (et't) "stage s = EVASION_TT" | (ev) "stage s = EVASION_INIT"
    | (ptt) "stage s = PROBCUT_TT" | (pc) "stage s = PROBCUT_INIT"
    | (qtt) "stage s = QSEARCH_TT" | (qc) "stage s = QCAPTURE_INIT" by blast
  then show ?thesis
  proof cases
    case main
    have tt': "stage s = MAIN_TT \<longrightarrow> ttMove s \<noteq> Move_none"
      using tt by (simp add: is_tt_stage_def)
    from main_from_start(1) [OF main nn tt', of bs]
    obtain g b where g: "yields_at GOOD_CAPTURE (run X bs s) @ g
        = map move (filter (picks GoodCapture s) (sorted_captures X s))"
      and b: "yields_at BAD_CAPTURE (run X bs s) @ b
        = map move (filter (rejected s) (sorted_captures X s))"
      by blast
    have sub: "set (yields_at GOOD_CAPTURE (run X bs s)) \<subseteq> ?C"
      "set (yields_at BAD_CAPTURE (run X bs s)) \<subseteq> ?C"
      using prefix_subset [OF g] prefix_subset [OF b] set_moves_sorted_captures [of X s]
      by auto
    from main_from_start(2) [OF main nn tt', of bs] mem
    have f: "st \<le> BAD_QUIET" "st \<noteq> QUIET_INIT" "st \<noteq> MAIN_TT" "st = CAPTURE_INIT \<longrightarrow> m = ttMove s"
      "m \<noteq> Move_none \<and> (st = GOOD_QUIET \<or> st = BAD_QUIET) \<longrightarrow> False \<in> set bs"
      by fastforce+
    show ?thesis
    proof (cases "m = Move_none")
      case True
      then show ?thesis by simp
    next
      case False
      have nq: "st \<noteq> GOOD_QUIET" "st \<noteq> BAD_QUIET" using f(5) False flags by auto
      from f(1,2,3) nq consider "st = CAPTURE_INIT" | "st = GOOD_CAPTURE" | "st = REFUTATION"
        | "st = BAD_CAPTURE"
        unfolding stage_defs by linarith
      then show ?thesis
      proof cases
        case 1
        then show ?thesis using f(4) by simp
      next
        case 2
        then show ?thesis using in_yields_at [OF mem False] sub(1) by auto
      next
        case 3
        then show ?thesis by simp
      next
        case 4
        then show ?thesis using in_yields_at [OF mem False] sub(2) by auto
      qed
    qed
  next
    case et't
    then have t: "is_tt_stage (stage s)" by (simp add: is_tt_stage_def)
    have "stage (next_stage s) = EVASION_INIT" using et't by (simp add: stage_defs)
    then have "st = EVASION" if "(m, st) \<in> set (run X bs' (next_stage s))" for bs'
      using evasion_run [OF _ that] by simp
    with after_tt [OF t, of "st = EVASION"] show ?thesis by blast
  next
    case ev
    then show ?thesis using evasion_run [OF _ mem] by simp
  next
    case ptt
    then have t: "is_tt_stage (stage s)" by (simp add: is_tt_stage_def)
    have "stage (next_stage s) = PROBCUT_INIT" using ptt by (simp add: stage_defs)
    then have "m = Move_none \<or> m \<in> ?C" if "(m, st) \<in> set (run X bs' (next_stage s))" for bs'
      using probcut [OF _ _ that] by simp
    with after_tt [OF t, of "m = Move_none \<or> m \<in> ?C"] show ?thesis by blast
  next
    case pc
    then show ?thesis using probcut [OF pc refl mem] by blast
  next
    case qtt
    then have t: "is_tt_stage (stage s)" by (simp add: is_tt_stage_def)
    have "stage (next_stage s) = QCAPTURE_INIT" using qtt by (simp add: stage_defs)
    then have "m = Move_none \<or> m \<in> ?C \<or> st = QCHECK"
      if "(m, st) \<in> set (run X bs' (next_stage s))" for bs'
      using qsearch [OF _ _ that] by auto
    with after_tt [OF t, of "m = Move_none \<or> m \<in> ?C \<or> st = QCHECK"] show ?thesis by blast
  next
    case qc
    then show ?thesis using qsearch [OF qc refl mem] by blast
  qed
qed

lemma stage_after_constructor:
  fixes s :: MovePicker
  assumes "s = MovePicker_main s0 p ttm d mh cph ch ph cm killers
     \<or> s = MovePicker_qsearch s0 p ttm d mh cph ch ph
     \<or> s = MovePicker_probcut s0 p ttm th cph"
  shows "(stage s = MAIN_TT \<or> stage s = CAPTURE_INIT \<or> stage s = EVASION_TT
      \<or> stage s = EVASION_INIT \<or> stage s = PROBCUT_TT \<or> stage s = PROBCUT_INIT
      \<or> stage s = QSEARCH_TT \<or> stage s = QCAPTURE_INIT)
    \<and> (is_tt_stage (stage s) \<longrightarrow> ttMove s \<noteq> Move_none) \<and> pos s = p \<and> ttMove s = ttm"
proof -
  have m: "?thesis" if "s = MovePicker_main s0 p ttm d mh cph ch ph cm killers"
    unfolding that by (simp add: MovePicker_main_def is_tt_stage_def stage_defs)
  have q: "?thesis" if "s = MovePicker_qsearch s0 p ttm d mh cph ch ph"
    unfolding that by (simp add: MovePicker_qsearch_def is_tt_stage_def stage_defs)
  have c: "?thesis" if "s = MovePicker_probcut s0 p ttm th cph"
    unfolding that by (simp add: MovePicker_probcut_def is_tt_stage_def stage_defs)
  from assms m q c show ?thesis by blast
qed

text \<open>The first element a descending list offers a predicate has the greatest value
  among those the predicate holds for.\<close>

lemma descending_filter_hd:
  assumes "descending xs" "filter P xs = x # rest" "y \<in> set xs" "P y"
  shows "value' y \<le> value' x"
proof -
  have "descending (filter P xs)"
    using assms(1) unfolding descending_def by (rule sorted_wrt_filter)
  then have "\<forall>z\<in>set rest. value' z \<le> value' x"
    unfolding assms(2) by (simp add: descending_Cons)
  moreover have "y \<in> set (x # rest)" using assms(3,4) unfolding assms(2) [symmetric] by simp
  ultimately show ?thesis by auto
qed

text \<open>The first call of a ProbCut picker whose hash move fails the threshold.\<close>

lemma probcut_first:
  assumes s: "s = MovePicker_probcut s0 p ttm th cph"
    and fail: "\<not> see_ge p ttm th"
  shows "stage s = PROBCUT_INIT"
    and "pending SeeGeThreshold (capture_init X s)
      = map move (filter (\<lambda>x. see_ge p (move x) th) (sorted_captures X s))"
    and "pending SeeGeThreshold (capture_init X s) = [] \<Longrightarrow> fst (next_move X b s) = Move_none"
    and "pending SeeGeThreshold (capture_init X s) \<noteq> [] \<Longrightarrow>
      fst (next_move X b s) = hd (pending SeeGeThreshold (capture_init X s))"
proof -
  show st: "stage s = PROBCUT_INIT"
    unfolding s using fail by (simp add: MovePicker_probcut_def stage_defs)
  have f: "pos s = p" "ttMove s = ttm" "threshold s = th"
    unfolding s by (simp_all add: MovePicker_probcut_def)
  have "picks SeeGeThreshold (capture_init X s) = (\<lambda>x. see_ge p (move x) th)"
    using fail by (intro ext) (auto simp: picks_def f)
  then show "pending SeeGeThreshold (capture_init X s)
      = map move (filter (\<lambda>x. see_ge p (move x) th) (sorted_captures X s))"
    by (simp add: pending_def capture_init_state)
  have nm: "next_move X b s = select Next SeeGeThreshold (capture_init X s)"
    by (simp add: next_move_PROBCUT_INIT [OF st] case_PROBCUT_def)
  have "SeeGeThreshold \<noteq> GoodCapture" by simp
  from select_pure [OF this, of "capture_init X s"]
  have sel: "pending SeeGeThreshold (capture_init X s)
        = fst (next_move X b s) # pending SeeGeThreshold (snd (next_move X b s))
      \<or> fst (next_move X b s) = Move_none \<and> pending SeeGeThreshold (capture_init X s) = []"
    unfolding nm by blast
  show "fst (next_move X b s) = Move_none" if "pending SeeGeThreshold (capture_init X s) = []"
    using sel that by auto
  show "fst (next_move X b s) = hd (pending SeeGeThreshold (capture_init X s))"
    if "pending SeeGeThreshold (capture_init X s) \<noteq> []"
    using sel that by (metis list.sel(1))
qed

subsection \<open>The quiet stages leave the refutations out\<close>

lemma quiet_step_via:
  "quiet_step t r \<Longrightarrow> refutations t = refutations s \<Longrightarrow> quiet_step s r"
  by (simp add: quiet_step_def is_refutation_def)

lemma select_pure_refutations:
  assumes "P \<noteq> GoodCapture"
  shows "refutations (snd (select Next P s)) = refutations s"
proof -
  from select_pure [OF assms, of s]
  have e: "snd (select Next P s) = s\<lparr>cur := cur (snd (select Next P s))\<rparr>" by blast
  show ?thesis by (subst e) simp
qed

lemma select_NotRefutation:
  assumes "fst (select Next NotRefutation s) \<noteq> Move_none"
  shows "\<not> is_refutation s (fst (select Next NotRefutation s))"
proof -
  have "NotRefutation \<noteq> GoodCapture" by simp
  from select_pure [OF this, of s] assms
  have "fst (select Next NotRefutation s) \<in> set (pending NotRefutation s)"
    by (metis list.set_intros(1))
  then obtain x where "picks NotRefutation s x" "move x = fst (select Next NotRefutation s)"
    by (auto simp: pending_def)
  then show ?thesis by (auto simp: picks_def is_refutation_def)
qed

lemma quiet_BAD_QUIET: "quiet_step s (case_BAD_QUIET b s)"
proof (cases b)
  case True
  then show ?thesis by (simp add: case_BAD_QUIET_def quiet_step_def)
next
  case False
  then have r: "case_BAD_QUIET b s = select Next NotRefutation s"
    by (simp add: case_BAD_QUIET_def)
  show ?thesis
    unfolding r quiet_step_def
    using select_NotRefutation [of s] select_pure_refutations [of NotRefutation s] by simp
qed

lemma quiet_BAD_CAPTURE:
  assumes st: "stage s = BAD_CAPTURE"
  shows "quiet_step s (case_BAD_CAPTURE b s)"
proof -
  obtain m s1 where sel: "select Next Always s = (m, s1)" by (cases "select Next Always s")
  have f: "stage s1 = BAD_CAPTURE" "refutations s1 = refutations s"
    using select_stage [of Next Always s] select_pure_refutations [of Always s] st
    by (simp_all add: sel)
  show ?thesis
  proof (cases "m = Move_none")
    case False
    have r: "case_BAD_CAPTURE b s = (m, s1)"
      using False select_prev [OF sel False] by (simp add: case_BAD_CAPTURE_def sel)
    show ?thesis unfolding r quiet_step_def using f by (simp add: stage_defs)
  next
    case True
    let ?t = "next_stage (s1\<lparr>cur := beginBadQuiets s1, endMoves := endBadQuiets s1\<rparr>)"
    have r: "case_BAD_CAPTURE b s = case_BAD_QUIET b ?t"
      using True by (simp add: case_BAD_CAPTURE_def sel)
    show ?thesis unfolding r
      by (rule quiet_step_via [OF quiet_BAD_QUIET]) (simp add: f)
  qed
qed

lemma quiet_GOOD_QUIET:
  assumes st: "stage s = GOOD_QUIET"
  shows "quiet_step s (case_GOOD_QUIET b s)"
proof (cases b)
  case True
  let ?t = "next_stage (s\<lparr>cur := Moves 0, endMoves := endBadCaptures s\<rparr>)"
  have r: "case_GOOD_QUIET b s = case_BAD_CAPTURE b ?t"
    using True by (simp add: case_GOOD_QUIET_def Let_def)
  have tst: "stage ?t = BAD_CAPTURE" using st by (simp add: stage_defs)
  show ?thesis unfolding r by (rule quiet_step_via [OF quiet_BAD_CAPTURE [OF tst]]) simp
next
  case False
  obtain m s1 where sel: "select Next NotRefutation s = (m, s1)"
    by (cases "select Next NotRefutation s")
  have f: "stage s1 = stage s" "refutations s1 = refutations s"
    using select_stage [of Next NotRefutation s] select_pure_refutations [of NotRefutation s]
    by (simp_all add: sel)
  have nr: "m \<noteq> Move_none \<longrightarrow> \<not> is_refutation s m"
    using select_NotRefutation [of s] by (simp add: sel)
  let ?prev = "deref s1 (ptr_sub (cur s1) 1)"
  show ?thesis
  proof (cases "m \<noteq> Move_none
      \<and> (value' ?prev > - 8000 \<or> value' ?prev \<le> quiet_threshold (depth s1))")
    case True
    have r: "case_GOOD_QUIET b s = (m, s1)"
      unfolding case_GOOD_QUIET_def using False True select_prev [OF sel]
      by (simp add: sel Let_def)
    show ?thesis unfolding r quiet_step_def using f nr by simp
  next
    case no: False
    let ?s2 = "if m \<noteq> Move_none then s1\<lparr>beginBadQuiets := ptr_sub (cur s1) 1\<rparr> else s1"
    let ?t = "next_stage (?s2\<lparr>cur := Moves 0, endMoves := endBadCaptures ?s2\<rparr>)"
    have r: "case_GOOD_QUIET b s = case_BAD_CAPTURE b ?t"
      unfolding case_GOOD_QUIET_def using False no by (auto simp: sel Let_def)
    have tst: "stage ?t = BAD_CAPTURE" using st f by (simp add: stage_defs)
    show ?thesis unfolding r
      by (rule quiet_step_via [OF quiet_BAD_CAPTURE [OF tst]]) (simp add: f)
  qed
qed

lemma quiet_QUIET_INIT:
  assumes st: "stage s = QUIET_INIT" and e: "endBadCaptures s = Moves e"
  shows "quiet_step s (case_QUIET_INIT X b s)"
proof -
  let ?t = "next_stage (if \<not> b then quiet_init X s else s)"
  have tst: "stage ?t = GOOD_QUIET" using st by (simp add: stage_defs)
  have rf: "refutations ?t = refutations s" by (simp add: quiet_init_Moves [OF e])
  show ?thesis unfolding case_QUIET_INIT_def
    by (rule quiet_step_via [OF quiet_GOOD_QUIET [OF tst] rf])
qed

lemma quiet_REFUTATION:
  assumes st: "stage s = REFUTATION" and e: "endBadCaptures s = Moves e"
  shows "quiet_step s (case_REFUTATION X b s)"
proof -
  obtain m s1 where sel: "select Next Refutation s = (m, s1)"
    by (cases "select Next Refutation s")
  have s1: "s1 = s\<lparr>cur := cur s1\<rparr>"
    using select_pure [of Refutation s] by (simp add: sel)
  have f: "stage s1 = stage s" "refutations s1 = refutations s"
    "endBadCaptures s1 = endBadCaptures s"
    by (subst s1, simp)+
  show ?thesis
  proof (cases "m = Move_none")
    case False
    have r: "case_REFUTATION X b s = (m, s1)"
      using False select_prev [OF sel False] by (simp add: case_REFUTATION_def sel)
    show ?thesis unfolding r quiet_step_def using f st by (simp add: stage_defs)
  next
    case True
    let ?t = "next_stage s1"
    have r: "case_REFUTATION X b s = case_QUIET_INIT X b ?t"
      using True by (simp add: case_REFUTATION_def sel)
    have tst: "stage ?t = QUIET_INIT" using f st by (simp add: stage_defs)
    have te: "endBadCaptures ?t = Moves e" using f e by simp
    show ?thesis unfolding r
      by (rule quiet_step_via [OF quiet_QUIET_INIT [OF tst te]]) (simp add: f)
  qed
qed

lemma quiet_GOOD_CAPTURE:
  assumes st: "stage s = GOOD_CAPTURE" and sh: "good_shape s"
  shows "quiet_step s (case_GOOD_CAPTURE X b s)"
proof -
  obtain m s1 where sel: "select Next GoodCapture s = (m, s1)"
    by (cases "select Next GoodCapture s")
  have f: "stage s1 = stage s" using select_stage [of Next GoodCapture s] by (simp add: sel)
  from select_good [of s] sh
  have sh1: "good_shape s1" and rf: "refutations s1 = refutations s"
    by (simp_all add: sel)
  show ?thesis
  proof (cases "m = Move_none")
    case False
    have r: "case_GOOD_CAPTURE X b s = (m, s1)"
      using False select_prev [OF sel False] by (simp add: case_GOOD_CAPTURE_def sel)
    show ?thesis unfolding r quiet_step_def using f st rf by (simp add: stage_defs)
  next
    case True
    let ?t = "next_stage (refutation_init s1)"
    have r: "case_GOOD_CAPTURE X b s = case_REFUTATION X b ?t"
      using True by (simp add: case_GOOD_CAPTURE_def sel)
    have tst: "stage ?t = REFUTATION" using f st by (simp add: stage_defs)
    from sh1 obtain e where e: "endBadCaptures s1 = Moves e" unfolding good_shape_def by blast
    have te: "endBadCaptures ?t = Moves e" using e by simp
    show ?thesis unfolding r
      by (rule quiet_step_via [OF quiet_REFUTATION [OF tst te]]) (simp add: rf)
  qed
qed

lemma quiet_next_move:
  assumes "GOOD_CAPTURE \<le> stage s" "stage s \<le> BAD_QUIET" "main_inv s"
  shows "quiet_step s (next_move X b s)"
proof -
  from assms(1,2) consider "stage s = GOOD_CAPTURE" | "stage s = REFUTATION"
    | "stage s = QUIET_INIT" | "stage s = GOOD_QUIET" | "stage s = BAD_CAPTURE"
    | "stage s = BAD_QUIET"
    unfolding stage_defs by linarith
  then show ?thesis
  proof cases
    case 1
    then have "good_shape s" using assms(3) by (simp add: main_inv_def)
    then show ?thesis using 1 quiet_GOOD_CAPTURE by (simp add: next_move_GOOD_CAPTURE)
  next
    case 2
    then obtain e where "endBadCaptures s = Moves e"
      using assms(3) by (auto simp: main_inv_def stage_defs)
    then show ?thesis using 2 quiet_REFUTATION by (simp add: next_move_REFUTATION)
  next
    case 3
    then obtain e where "endBadCaptures s = Moves e"
      using assms(3) by (auto simp: main_inv_def stage_defs)
    then show ?thesis using 3 quiet_QUIET_INIT by (simp add: next_move_QUIET_INIT)
  next
    case 4
    then show ?thesis using quiet_GOOD_QUIET by (simp add: next_move_GOOD_QUIET)
  next
    case 5
    then show ?thesis using quiet_BAD_CAPTURE by (simp add: next_move_BAD_CAPTURE)
  next
    case 6
    then show ?thesis using quiet_BAD_QUIET by (simp add: next_move_BAD_QUIET)
  qed
qed

lemma quiet_run:
  assumes "GOOD_CAPTURE \<le> stage s" "stage s \<le> BAD_QUIET" "main_inv s"
    and "(m, st) \<in> set (run X bs s)" "m \<noteq> Move_none" "st = GOOD_QUIET \<or> st = BAD_QUIET"
  shows "\<not> is_refutation s m"
  using assms
proof (induction bs arbitrary: s)
  case Nil
  then show ?case by simp
next
  case (Cons b bs)
  obtain m1 s1 where nm: "next_move X b s = (m1, s1)" by (cases "next_move X b s")
  from main_next_move [OF Cons.prems(1,2,3), of b X]
  have inv1: "main_inv s1" and ge: "stage s \<le> stage s1" and le: "stage s1 \<le> BAD_QUIET"
    by (simp_all add: nm main_step_def)
  from quiet_next_move [OF Cons.prems(1,2,3), of X b]
  have rf: "refutations s1 = refutations s"
    and q: "m1 \<noteq> Move_none \<and> (stage s1 = GOOD_QUIET \<or> stage s1 = BAD_QUIET)
      \<longrightarrow> \<not> is_refutation s m1"
    by (simp_all add: nm quiet_step_def)
  from Cons.prems(4) have "(m, st) = (m1, stage s1) \<or> (m, st) \<in> set (run X bs s1)"
    by (simp add: nm)
  then show ?case
  proof
    assume "(m, st) = (m1, stage s1)"
    then show ?thesis using q Cons.prems(5,6) by auto
  next
    assume a: "(m, st) \<in> set (run X bs s1)"
    have ge1: "GOOD_CAPTURE \<le> stage s1" using Cons.prems(1) ge by simp
    from Cons.IH [OF ge1 le inv1 a Cons.prems(5,6)]
    show ?thesis by (simp add: is_refutation_def rf)
  qed
qed

lemma quiet_from_start:
  assumes st: "stage s = MAIN_TT \<or> stage s = CAPTURE_INIT"
    and nn: "Move_none \<notin> set (generate X CAPTURES (pos s))"
    and mem: "(m, st') \<in> set (run X bs s)" "m \<noteq> Move_none"
      "st' = GOOD_QUIET \<or> st' = BAD_QUIET"
  shows "\<not> is_refutation s m"
proof -
  have from1: "\<not> is_refutation s m"
    if s': "stage s' = CAPTURE_INIT" "pos s' = pos s" "refutations s' = refutations s"
      and m': "(m, st') \<in> set (run X bs' s')" for s' bs'
  proof -
    let ?t = "capture_init X s'"
    have nn': "Move_none \<notin> set (generate X CAPTURES (pos s'))" using nn s' by simp
    note a = main_after_capture_init [OF s'(1) nn']
    have ge: "GOOD_CAPTURE \<le> stage ?t" and le: "stage ?t \<le> BAD_QUIET"
      using a(2) by (simp_all add: stage_defs)
    have r: "run X bs' s' = run X bs' ?t" using s'(1) by (intro run_capture_init) simp
    from quiet_run [OF ge le a(1) m' [unfolded r] mem(2,3)]
    show ?thesis by (simp add: is_refutation_def s')
  qed
  show ?thesis
  proof (cases "stage s = CAPTURE_INIT")
    case True
    then show ?thesis using from1 [OF True refl refl mem(1)] by simp
  next
    case False
    with st have s0: "stage s = MAIN_TT" by simp
    then have t: "is_tt_stage (stage s)" by (simp add: is_tt_stage_def)
    show ?thesis
    proof (cases bs)
      case Nil
      with mem(1) show ?thesis by simp
    next
      case (Cons b bs')
      from mem(1) have "(m, st') = (ttMove s, stage s + 1)
          \<or> (m, st') \<in> set (run X bs' (next_stage s))"
        unfolding Cons run_tt_stage [OF t] by simp
      then show ?thesis
      proof
        assume "(m, st') = (ttMove s, stage s + 1)"
        then show ?thesis using s0 mem(3) by (simp add: stage_defs)
      next
        assume a: "(m, st') \<in> set (run X bs' (next_stage s))"
        have "stage (next_stage s) = CAPTURE_INIT" using s0 by (simp add: stage_defs)
        from from1 [OF this _ _ a] show ?thesis by simp
      qed
    qed
  qed
qed

subsection \<open>Counting the moves a sequence of calls returns\<close>

lemma count_yields_le: "count_list (yields tr) c \<le> count_list (map fst tr) c"
  by (induction tr) (auto simp: yields_def)

lemma count_yields_one:
  assumes "\<forall>(m, st) \<in> set tr. m = c \<and> m \<noteq> Move_none \<longrightarrow> st = k"
  shows "count_list (yields tr) c = count_list (yields_at k tr) c"
  using assms by (induction tr) (auto simp: yields_def yields_at_def)

lemma count_yields_two:
  assumes "\<forall>(m, st) \<in> set tr. m = c \<and> m \<noteq> Move_none \<longrightarrow> st = k \<or> st = k'" "k \<noteq> k'"
  shows "count_list (yields tr) c = count_list (yields_at k tr) c + count_list (yields_at k' tr) c"
  using assms by (induction tr) (auto simp: yields_def yields_at_def)

lemma count_list_append_le: "xs @ ys = zs \<Longrightarrow> count_list xs c \<le> count_list zs c"
  by auto

lemma count_list_filter_disjoint:
  assumes "\<And>x. \<not> (P x \<and> Q x)"
  shows "count_list (map f (filter P xs)) c + count_list (map f (filter Q xs)) c
    \<le> count_list (map f xs) c"
  using assms by (induction xs) auto

subsection \<open>Where the main search returns a killer or the counter-move\<close>

lemma count_yields_none [simp]: "count_list (yields tr) Move_none = 0"
  by (simp add: yields_def count_list_0_iff)

lemma count_hd_once: "xs = t # rest \<Longrightarrow> t \<notin> set rest \<Longrightarrow> count_list xs t \<le> 1"
  by (simp add: count_list_0_iff)

lemma hash_move_count:
  assumes "ttMove s \<noteq> Move_none"
  shows "count_list (map fst (run X bs s)) (ttMove s) \<le> 1"
proof (cases "is_tt_stage (stage s)")
  case True
  show ?thesis
  proof (cases bs)
    case Nil
    have "run X [] s = []" by (simp only: run.simps)
    then show ?thesis unfolding Nil by (simp only: list.map count_list.simps)
  next
    case (Cons b bs')
    have "\<exists>rest. map fst (run X (b # bs') s) = ttMove s # rest \<and> ttMove s \<notin> set rest"
      by (rule run_from_tt_stage [OF True assms])
    then show ?thesis unfolding Cons
      by (elim exE conjE) (rule count_hd_once; assumption)
  qed
next
  case False
  have "ttMove s \<notin> fst ` set (run X bs s)"
    using run_not_tt [OF False, of _ _ X bs] assms by fastforce
  then have "ttMove s \<notin> set (map fst (run X bs s))" by (simp only: set_map not_False_eq_True)
  then have "count_list (map fst (run X bs s)) (ttMove s) = 0" by (simp only: count_list_0_iff not_False_eq_True)
  then show ?thesis by linarith
qed

text \<open>Where the main search, not in check, returns a killer or the counter-move.\<close>

lemma main_refutation_yields:
  assumes nc: "\<not> checkers p"
    and caps: "\<forall>c\<in>set (generate X CAPTURES p).
        capture_stage p c \<and> pseudo_legal p c \<and> c \<noteq> Move_none"
    and mem: "(m, st) \<in> set (run X bs (MovePicker_main s0 p ttm d mh cph ch ph cm killers))"
    and m: "m \<noteq> Move_none" "m = killers 0 \<or> m = killers 1 \<or> m = cm"
  shows "pseudo_legal p m
    \<and> (st = CAPTURE_INIT \<and> m = ttm
       \<or> (st = GOOD_CAPTURE \<or> st = BAD_CAPTURE) \<and> m \<noteq> ttm \<and> capture_stage p m
       \<or> st = REFUTATION \<and> m \<noteq> ttm \<and> \<not> capture_stage p m)"
proof -
  let ?s = "MovePicker_main s0 p ttm d mh cph ch ph cm killers"
  let ?L = "sorted_captures X ?s"
  note st0 = stage_main_not_in_check [OF nc, of s0 ttm d mh cph ch ph cm killers]
  have nn: "Move_none \<notin> set (generate X CAPTURES (pos ?s))" using caps by auto
  have tt: "stage ?s = MAIN_TT \<longrightarrow> ttMove ?s \<noteq> Move_none" using st0 by simp
  have isr: "is_refutation ?s m"
    using m(2) by (simp add: is_refutation_def MovePicker_main_def)
  from main_from_start(1) [OF st0 [THEN conjunct1] nn tt, of bs]
  obtain g b r where g: "yields_at GOOD_CAPTURE (run X bs ?s) @ g
        = map move (filter (picks GoodCapture ?s) ?L)"
    and b: "yields_at BAD_CAPTURE (run X bs ?s) @ b = map move (filter (rejected ?s) ?L)"
    and r: "yields_at REFUTATION (run X bs ?s) @ r = ref_list ?s"
    by blast
  from main_from_start(2) [OF st0 [THEN conjunct1] nn tt, of bs] mem
  have f: "st \<le> BAD_QUIET" "st \<noteq> QUIET_INIT" "st \<noteq> MAIN_TT" "st = CAPTURE_INIT \<longrightarrow> m = ttm"
    by fastforce+
  have nq: "st \<noteq> GOOD_QUIET" "st \<noteq> BAD_QUIET"
    using quiet_from_start [OF st0 [THEN conjunct1] nn mem m(1)] isr by auto
  from f(1,2,3) nq consider "st = CAPTURE_INIT" | "st = GOOD_CAPTURE" | "st = REFUTATION"
    | "st = BAD_CAPTURE"
    unfolding stage_defs by linarith
  then show ?thesis
  proof cases
    case 1
    then have e: "m = ttm" using f(4) by simp
    have "is_tt_stage (stage ?s)"
    proof (rule ccontr)
      assume "\<not> is_tt_stage (stage ?s)"
      from run_not_tt [OF this mem] show False using e m(1) by simp
    qed
    then have "stage ?s = MAIN_TT" using st0 by (auto simp: is_tt_stage_def stage_defs)
    then have "pseudo_legal p ttm"
      by (simp add: MovePicker_main_def stage_defs nc split: if_splits)
    then show ?thesis using 1 e by simp
  next
    case 2
    have "m \<in> set (yields_at GOOD_CAPTURE (run X bs ?s))"
      using in_yields_at [OF mem m(1)] 2 by simp
    then have "m \<in> set (map move (filter (picks GoodCapture ?s) ?L))"
      using prefix_subset [OF g] by blast
    then obtain x where x: "x \<in> set ?L" "picks GoodCapture ?s x" "move x = m" by auto
    have "m \<in> set (map move ?L)" using x by auto
    then have "m \<in> set (generate X CAPTURES p)"
      unfolding set_moves_sorted_captures by simp
    moreover have "m \<noteq> ttm" using x(2,3) by (simp add: picks_def)
    ultimately show ?thesis using 2 caps by (auto simp: stage_defs)
  next
    case 3
    have "m \<in> set (yields_at REFUTATION (run X bs ?s))"
      using in_yields_at [OF mem m(1)] 3 by simp
    then have "m \<in> set (ref_list ?s)" using prefix_subset [OF r] by blast
    then have "m \<noteq> ttm \<and> \<not> capture_stage p m \<and> pseudo_legal p m"
      unfolding ref_list_main by (auto split: if_splits)
    then show ?thesis using 3 by simp
  next
    case 4
    have "m \<in> set (yields_at BAD_CAPTURE (run X bs ?s))"
      using in_yields_at [OF mem m(1)] 4 by simp
    then have "m \<in> set (map move (filter (rejected ?s) ?L))"
      using prefix_subset [OF b] by blast
    then obtain x where x: "x \<in> set ?L" "rejected ?s x" "move x = m" by auto
    have "m \<in> set (map move ?L)" using x by auto
    then have "m \<in> set (generate X CAPTURES p)"
      unfolding set_moves_sorted_captures by simp
    moreover have "m \<noteq> ttm" using x(2,3) by (simp add: rejected_def)
    ultimately show ?thesis using 4 caps by (auto simp: stage_defs)
  qed
qed

text \<open>A capture is returned at most once by the two capture stages together.\<close>

lemma capture_count:
  assumes nc: "\<not> checkers p"
    and nn: "Move_none \<notin> set (generate X CAPTURES p)"
    and di: "distinct (generate X CAPTURES p)"
  shows "count_list (yields_at GOOD_CAPTURE
        (run X bs (MovePicker_main s0 p ttm d mh cph ch ph cm killers))) c
     + count_list (yields_at BAD_CAPTURE
        (run X bs (MovePicker_main s0 p ttm d mh cph ch ph cm killers))) c \<le> 1"
proof -
  let ?s = "MovePicker_main s0 p ttm d mh cph ch ph cm killers"
  let ?L = "sorted_captures X ?s"
  note st0 = stage_main_not_in_check [OF nc, of s0 ttm d mh cph ch ph cm killers]
  have nn': "Move_none \<notin> set (generate X CAPTURES (pos ?s))" using nn by simp
  have tt: "stage ?s = MAIN_TT \<longrightarrow> ttMove ?s \<noteq> Move_none" using st0 by simp
  from main_from_start(1) [OF st0 [THEN conjunct1] nn' tt, of bs]
  obtain g b r where g: "yields_at GOOD_CAPTURE (run X bs ?s) @ g
        = map move (filter (picks GoodCapture ?s) ?L)"
    and b: "yields_at BAD_CAPTURE (run X bs ?s) @ b = map move (filter (rejected ?s) ?L)"
    by blast
  have "count_list (yields_at GOOD_CAPTURE (run X bs ?s)) c
      + count_list (yields_at BAD_CAPTURE (run X bs ?s)) c
      \<le> count_list (map move (filter (picks GoodCapture ?s) ?L)) c
        + count_list (map move (filter (rejected ?s) ?L)) c"
    by (rule add_mono [OF count_list_append_le [OF g] count_list_append_le [OF b]])
  also have "\<dots> \<le> count_list (map move ?L) c"
  proof (rule count_list_filter_disjoint)
    show "\<not> (picks GoodCapture ?s x \<and> rejected ?s x)" for x
      unfolding picks_def rejected_def by blast
  qed
  also have "\<dots> = count_list (generate X CAPTURES p) c"
  proof -
    let ?g = "generate X CAPTURES p"
    let ?f = "\<lambda>m. \<lparr>move = m, value' = capture_value X p m\<rparr>"
    have "mset (map move ?L) = image_mset move (mset ?L)" by (simp only: mset_map)
    also have "\<dots> = image_mset move (mset (map ?f ?g))"
      by (simp only: mset_sorted_captures pos_constructors)
    also have "\<dots> = mset (map move (map ?f ?g))" by (simp only: mset_map)
    also have "map move (map ?f ?g) = ?g" by (simp add: comp_def)
    finally have "mset (map move ?L) = mset (generate X CAPTURES p)" .
    then have "count (mset (map move ?L)) c = count (mset (generate X CAPTURES p)) c"
      by (rule arg_cong)
    then show ?thesis by (simp only: count_mset)
  qed
  also have "\<dots> \<le> 1" using di by (rule count_list_le1_distinct)
  finally show ?thesis .
qed

section \<open>The claims\<close>

text \<open>
  C1. When the hash move passes the test of the constructor (it is not
  \<^verbatim>\<open>Move::none()\<close> and is pseudo-legal; for ProbCut it is also capture-class and meets
  the static-exchange threshold), the first call of \<^verbatim>\<open>next_move\<close> returns it, and no
  later call returns it, whatever \<^verbatim>\<open>skipQuiets\<close> is in each call.
\<close>
theorem hash_move_first_and_once:
  assumes "(s = MovePicker_main s0 p ttm d mh cph ch ph cm killers
            \<or> s = MovePicker_qsearch s0 p ttm d mh cph ch ph)
           \<and> ttm \<noteq> Move_none \<and> pseudo_legal p ttm
         \<or> s = MovePicker_probcut s0 p ttm th cph
           \<and> ttm \<noteq> Move_none \<and> capture_stage p ttm \<and> pseudo_legal p ttm \<and> see_ge p ttm th"
  shows "\<exists>rest. map fst (run X (b # bs) s) = ttm # rest \<and> ttm \<notin> set rest"
proof -
  have "is_tt_stage (stage s) \<and> ttMove s = ttm \<and> ttm \<noteq> Move_none"
    using assms stage_constructors [of ttm p] by auto
  then show ?thesis using run_from_tt_stage [of s X b bs] by auto
qed

theorem hash_move_first_and_once_witness:
  "\<exists>rest. map fst (run ex_X [False, False, False, False, False, False, False] ex_main) = 20 # rest
     \<and> 20 \<notin> set rest"
proof -
  have "20 \<noteq> Move_none \<and> pseudo_legal ex_pos 20"
    by (simp add: Move_none_def ex_pos_def)
  then show ?thesis
    using hash_move_first_and_once [of ex_main ex_s0 ex_pos 20 1 "\<lambda>c i. 0" "\<lambda>pc sq pt. 0"
        "\<lambda>i pc sq. 0" "\<lambda>i pc sq. 0" 21 "\<lambda>i. if i = 0 then 21 else Move_none" _ ex_X False
        "[False, False, False, False, False, False]"]
    by (simp add: ex_main_def)
qed

text \<open>
  C3 (as amended). After \<^verbatim>\<open>partial_insertion_sort\<close> the range is a permutation of the
  original one. With \<open>k\<close> the number of elements whose value is at least the limit, the
  first \<open>k\<close> elements are in non-increasing order of value and are the elements at least
  the limit, the others are below it, and nothing outside the range has changed. Equal
  values stay next to each other, so the order is not strict.
\<close>
theorem partial_insertion_sort_prefix:
  "mset (range_of (partial_insertion_sort a b e limit) b e) = mset (range_of a b e)
   \<and> descending (take (length (filter (\<lambda>x. limit \<le> value' x) (range_of a b e)))
                   (range_of (partial_insertion_sort a b e limit) b e))
   \<and> (\<forall>x\<in>set (take (length (filter (\<lambda>x. limit \<le> value' x) (range_of a b e)))
                   (range_of (partial_insertion_sort a b e limit) b e)). limit \<le> value' x)
   \<and> (\<forall>x\<in>set (drop (length (filter (\<lambda>x. limit \<le> value' x) (range_of a b e)))
                   (range_of (partial_insertion_sort a b e limit) b e)). value' x < limit)
   \<and> (\<forall>i. i < b \<or> e \<le> i \<longrightarrow> partial_insertion_sort a b e limit i = a i)"
  using partial_insertion_sort_props [where a = a and b = b and e = e and limit = limit] by blast

theorem partial_insertion_sort_prefix_witness:
  "mset (range_of (partial_insertion_sort (array_of
      [\<lparr>move = 1, value' = 1\<rparr>, \<lparr>move = 2, value' = 5\<rparr>,
       \<lparr>move = 3, value' = 0\<rparr>, \<lparr>move = 4, value' = 7\<rparr>]) 0 4 2) 0 4)
     = mset [\<lparr>move = 1, value' = 1\<rparr>, \<lparr>move = 2, value' = 5\<rparr>,
       \<lparr>move = 3, value' = 0\<rparr>, \<lparr>move = 4, value' = 7\<rparr>]
   \<and> descending (take 2 (range_of (partial_insertion_sort (array_of
      [\<lparr>move = 1, value' = 1\<rparr>, \<lparr>move = 2, value' = 5\<rparr>,
       \<lparr>move = 3, value' = 0\<rparr>, \<lparr>move = 4, value' = 7\<rparr>]) 0 4 2) 0 4))
   \<and> range_of (partial_insertion_sort (array_of
      [\<lparr>move = 1, value' = 1\<rparr>, \<lparr>move = 2, value' = 5\<rparr>,
       \<lparr>move = 3, value' = 0\<rparr>, \<lparr>move = 4, value' = 7\<rparr>]) 0 4 2) 0 4
     = [\<lparr>move = 4, value' = 7\<rparr>, \<lparr>move = 2, value' = 5\<rparr>,
        \<lparr>move = 1, value' = 1\<rparr>, \<lparr>move = 3, value' = 0\<rparr>]"
proof -
  let ?A = "array_of [\<lparr>move = 1, value' = 1\<rparr>, \<lparr>move = 2, value' = 5\<rparr>,
       \<lparr>move = 3, value' = 0\<rparr>, \<lparr>move = 4, value' = 7\<rparr>]"
  have r: "range_of ?A 0 4 = [\<lparr>move = 1, value' = 1\<rparr>, \<lparr>move = 2, value' = 5\<rparr>,
       \<lparr>move = 3, value' = 0\<rparr>, \<lparr>move = 4, value' = 7\<rparr>]"
    by (simp add: range_of_def array_of_def upt_rec)
  have k: "length (filter (\<lambda>x. 2 \<le> value' x) (range_of ?A 0 4)) = 2"
    unfolding r by simp
  have v: "range_of (partial_insertion_sort ?A 0 4 2) 0 4
     = [\<lparr>move = 4, value' = 7\<rparr>, \<lparr>move = 2, value' = 5\<rparr>,
        \<lparr>move = 1, value' = 1\<rparr>, \<lparr>move = 3, value' = 0\<rparr>]"
    by code_simp
  note t = partial_insertion_sort_prefix [of ?A 0 4 2, unfolded k]
  from t have "mset (range_of (partial_insertion_sort ?A 0 4 2) 0 4) = mset (range_of ?A 0 4)"
    and "descending (take 2 (range_of (partial_insertion_sort ?A 0 4 2) 0 4))"
    by blast+
  then show ?thesis using v unfolding r by blast
qed

text \<open>Two elements of the same value: both are at least the limit, and the sorted
  prefix is not strictly descending.\<close>

theorem partial_insertion_sort_not_strict:
  "length (filter (\<lambda>x. 0 \<le> value' x)
      (range_of (array_of [\<lparr>move = 1, value' = 5\<rparr>, \<lparr>move = 2, value' = 5\<rparr>]) 0 2)) = 2
   \<and> \<not> strictly_descending (take 2 (range_of (partial_insertion_sort
      (array_of [\<lparr>move = 1, value' = 5\<rparr>, \<lparr>move = 2, value' = 5\<rparr>]) 0 2 0) 0 2))"
  by (simp add: partial_insertion_sort_def pis_loop.simps range_of_def array_of_def upt_rec
      numeral_nat Let_def strictly_descending_def)

text \<open>
  C5. The main-search constructor starts in the evasion hash-move stage when the side
  to move is in check and in the main hash-move stage otherwise, one stage further
  exactly when the hash move is \<^verbatim>\<open>Move::none()\<close> or not pseudo-legal; the quiescence
  constructor does the same from its own hash-move stage. (The depth, which the
  constructors only assert, plays no part.)
\<close>
theorem constructor_initial_stage:
  "stage (MovePicker_main s0 p ttm d mh cph ch ph cm killers)
     = (if checkers p then EVASION_TT else MAIN_TT)
       + (if ttm = Move_none \<or> \<not> pseudo_legal p ttm then 1 else 0)
   \<and> stage (MovePicker_qsearch s0 p ttm d mh cph ch ph)
     = (if checkers p then EVASION_TT else QSEARCH_TT)
       + (if ttm = Move_none \<or> \<not> pseudo_legal p ttm then 1 else 0)"
  by (simp add: MovePicker_main_def MovePicker_qsearch_def)

text \<open>
  C2 (as amended). A picker built by any of the three constructors, the generated captures all
  capture-class and none of them \<^verbatim>\<open>Move::none()\<close>, and \<^verbatim>\<open>skipQuiets\<close> true in every call.
  A move returned, other than \<^verbatim>\<open>Move::none()\<close>, is capture-class, or is the hash move, or
  is returned by the refutation stage (a killer or the counter-move), by the quiet-check
  stage of quiescence search, or by the evasion stage.
\<close>
theorem skip_quiets_yields:
  assumes "s = MovePicker_main s0 p ttm d mh cph ch ph cm killers
         \<or> s = MovePicker_qsearch s0 p ttm d mh cph ch ph
         \<or> s = MovePicker_probcut s0 p ttm th cph"
    and "\<forall>c\<in>set (generate X CAPTURES p). capture_stage p c \<and> c \<noteq> Move_none"
    and "\<forall>b\<in>set bs. b"
    and "(m, st) \<in> set (run X bs s)"
  shows "m = Move_none \<or> capture_stage p m \<or> m = ttm
    \<or> st = REFUTATION \<or> st = QCHECK \<or> st = EVASION"
proof -
  note c = stage_after_constructor [OF assms(1)]
  have p: "pos s = p" and t: "ttMove s = ttm" using c by simp_all
  have nn: "Move_none \<notin> set (generate X CAPTURES (pos s))" using assms(2) unfolding p by auto
  from skip_quiets_run [OF c [THEN conjunct1] c [THEN conjunct2, THEN conjunct1] nn
      assms(3) assms(4)]
  show ?thesis using assms(2) unfolding p t by blast
qed

theorem skip_quiets_yields_witness:
  "(11, BAD_CAPTURE) \<in> set (run ex_X [True, True, True, True, True] ex_main)
   \<and> capture_stage ex_pos 11"
proof -
  have h1: "ex_main = MovePicker_main ex_s0 ex_pos 20 1 (\<lambda>c i. 0) (\<lambda>pc sq pt. 0) (\<lambda>i pc sq. 0)
       (\<lambda>i pc sq. 0) 21 (\<lambda>i. if i = 0 then 21 else Move_none)
     \<or> ex_main = MovePicker_qsearch ex_s0 ex_pos 20 1 (\<lambda>c i. 0) (\<lambda>pc sq pt. 0) (\<lambda>i pc sq. 0)
       (\<lambda>i pc sq. 0)
     \<or> ex_main = MovePicker_probcut ex_s0 ex_pos 20 0 (\<lambda>pc sq pt. 0)"
    by (simp add: ex_main_def)
  have h2: "\<forall>c\<in>set (generate ex_X CAPTURES ex_pos). capture_stage ex_pos c \<and> c \<noteq> Move_none"
    by (simp add: ex_X_def ex_pos_def Move_none_def)
  have h3: "\<forall>b\<in>set [True, True, True, True, True]. b" by simp
  have h4: "(11, BAD_CAPTURE) \<in> set (run ex_X [True, True, True, True, True] ex_main)"
    by (simp add: eval_defs)
  from skip_quiets_yields [OF h1 h2 h3 h4]
  have "capture_stage ex_pos 11" by (simp add: Move_none_def stage_defs)
  with h4 show ?thesis by simp
qed

text \<open>With \<^verbatim>\<open>skipQuiets\<close> true in every call and the side to move not in check, the main
  picker returns the quiet hash move 20 and the quiet killer 21.\<close>

theorem skip_quiets_yields_quiet_moves:
  "run ex_X [True, True, True] ex_main
     = [(20, CAPTURE_INIT), (10, GOOD_CAPTURE), (21, REFUTATION)]
   \<and> \<not> capture_stage ex_pos 20 \<and> \<not> capture_stage ex_pos 21 \<and> \<not> checkers ex_pos"
  by (simp add: eval_defs)

text \<open>
  C4 (as amended). Main search, side to move not in check, the generated captures
  distinct, pseudo-legal, capture-class and never \<^verbatim>\<open>Move::none()\<close>. Over a whole sequence of
  calls a killer or the counter-move is returned only if it is pseudo-legal, and then in
  one of three ways: as the hash move by the hash-move stage (the call that leaves the
  picker in \<^verbatim>\<open>CAPTURE_INIT\<close>); or, not being the hash move, as a capture-class move by the
  good-capture or bad-capture stage; or, being neither the hash move nor capture-class, by
  the refutation stage. The quiet stages never return it. When the counter-move equals one
  of the two killers and the two killers differ, that move is returned at most once in
  the whole sequence of calls.
\<close>
theorem refutations_filtered:
  assumes "\<not> checkers p"
    and "\<forall>c\<in>set (generate X CAPTURES p).
        capture_stage p c \<and> pseudo_legal p c \<and> c \<noteq> Move_none"
    and "distinct (generate X CAPTURES p)"
  shows "(\<forall>(m, st) \<in> set (run X bs (MovePicker_main s0 p ttm d mh cph ch ph cm killers)).
            m \<noteq> Move_none \<and> (m = killers 0 \<or> m = killers 1 \<or> m = cm) \<longrightarrow>
              pseudo_legal p m
              \<and> (st = CAPTURE_INIT \<and> m = ttm
                 \<or> (st = GOOD_CAPTURE \<or> st = BAD_CAPTURE) \<and> m \<noteq> ttm \<and> capture_stage p m
                 \<or> st = REFUTATION \<and> m \<noteq> ttm \<and> \<not> capture_stage p m))
     \<and> (killers 0 \<noteq> killers 1 \<and> (cm = killers 0 \<or> cm = killers 1) \<longrightarrow>
          count_list (yields (run X bs (MovePicker_main s0 p ttm d mh cph ch ph cm killers))) cm
            \<le> 1)"
proof -
  let ?s = "MovePicker_main s0 p ttm d mh cph ch ph cm killers"
  let ?tr = "run X bs ?s"
  note cls = main_refutation_yields [OF assms(1,2), of _ _ bs s0 ttm d mh cph ch ph cm killers]
  have nn: "Move_none \<notin> set (generate X CAPTURES p)" using assms(2) by auto
  have second: "count_list (yields ?tr) cm \<le> 1"
    if k: "killers 0 \<noteq> killers 1" "cm = killers 0 \<or> cm = killers 1"
  proof -
    have where_cm: "st = CAPTURE_INIT \<and> cm = ttm
        \<or> (st = GOOD_CAPTURE \<or> st = BAD_CAPTURE) \<and> cm \<noteq> ttm \<and> capture_stage p cm
        \<or> st = REFUTATION \<and> cm \<noteq> ttm \<and> \<not> capture_stage p cm"
      if "(cm, st) \<in> set ?tr" "cm \<noteq> Move_none" for st
      using cls [OF that] by simp
    consider (none) "cm = Move_none" | (hash) "cm \<noteq> Move_none" "cm = ttm"
      | (capt) "cm \<noteq> Move_none" "cm \<noteq> ttm" "capture_stage p cm"
      | (quiet) "cm \<noteq> Move_none" "cm \<noteq> ttm" "\<not> capture_stage p cm"
      by blast
    then show ?thesis
    proof cases
      case none
      then show ?thesis by simp
    next
      case hash
      have "ttMove ?s \<noteq> Move_none" using hash by simp
      from hash_move_count [OF this, of X bs]
      have "count_list (map fst ?tr) cm \<le> 1" using hash by simp
      with count_yields_le [of ?tr cm] show ?thesis by linarith
    next
      case capt
      have "\<forall>(m, st) \<in> set ?tr. m = cm \<and> m \<noteq> Move_none
          \<longrightarrow> st = GOOD_CAPTURE \<or> st = BAD_CAPTURE"
        using where_cm capt by blast
      then have "count_list (yields ?tr) cm
          = count_list (yields_at GOOD_CAPTURE ?tr) cm + count_list (yields_at BAD_CAPTURE ?tr) cm"
        by (rule count_yields_two) (simp add: stage_defs)
      then show ?thesis
        using capture_count [OF assms(1) nn assms(3), of bs s0 ttm d mh cph ch ph cm killers cm]
        by simp
    next
      case quiet
      have "\<forall>(m, st) \<in> set ?tr. m = cm \<and> m \<noteq> Move_none \<longrightarrow> st = REFUTATION"
        using where_cm quiet by blast
      then have e: "count_list (yields ?tr) cm = count_list (yields_at REFUTATION ?tr) cm"
        by (rule count_yields_one)
      note st0 = stage_main_not_in_check [OF assms(1), of s0 ttm d mh cph ch ph cm killers]
      have nn': "Move_none \<notin> set (generate X CAPTURES (pos ?s))" using nn by simp
      have tt: "stage ?s = MAIN_TT \<longrightarrow> ttMove ?s \<noteq> Move_none" using st0 by simp
      from main_from_start(1) [OF st0 [THEN conjunct1] nn' tt, of bs]
      obtain r where r: "yields_at REFUTATION ?tr @ r = ref_list ?s" by blast
      have "distinct (ref_list ?s)" unfolding ref_list_main using k by auto
      then have "distinct (yields_at REFUTATION ?tr)" unfolding r [symmetric] by simp
      then show ?thesis unfolding e by (rule count_list_le1_distinct)
    qed
  qed
  have first: "\<forall>(m, st) \<in> set ?tr.
      m \<noteq> Move_none \<and> (m = killers 0 \<or> m = killers 1 \<or> m = cm) \<longrightarrow>
        pseudo_legal p m
        \<and> (st = CAPTURE_INIT \<and> m = ttm
           \<or> (st = GOOD_CAPTURE \<or> st = BAD_CAPTURE) \<and> m \<noteq> ttm \<and> capture_stage p m
           \<or> st = REFUTATION \<and> m \<noteq> ttm \<and> \<not> capture_stage p m)"
    using cls by blast
  show ?thesis using first second by blast
qed

theorem refutations_filtered_witness:
  "yields (run ex_X [False, False, False, False, False, False] ex_main) = [20, 10, 21, 22, 11]
   \<and> pseudo_legal ex_pos 21 \<and> \<not> capture_stage ex_pos 21
   \<and> count_list (yields (run ex_X [False, False, False, False, False, False] ex_main)) 21 \<le> 1"
proof -
  have h1: "\<not> checkers ex_pos" by (simp add: ex_pos_def)
  have h2: "\<forall>c\<in>set (generate ex_X CAPTURES ex_pos).
      capture_stage ex_pos c \<and> pseudo_legal ex_pos c \<and> c \<noteq> Move_none"
    by (simp add: ex_X_def ex_pos_def Move_none_def)
  have h3: "distinct (generate ex_X CAPTURES ex_pos)" by (simp add: ex_X_def)
  have r: "run ex_X [False, False, False, False, False, False] ex_main
      = [(20, CAPTURE_INIT), (10, GOOD_CAPTURE), (21, REFUTATION), (22, GOOD_QUIET),
         (11, BAD_CAPTURE), (Move_none, BAD_QUIET)]"
    by (simp add: eval_defs)
  have y: "yields (run ex_X [False, False, False, False, False, False] ex_main)
      = [20, 10, 21, 22, 11]"
    unfolding r by (simp add: yields_def Move_none_def)
  have n: "21 \<noteq> Move_none" by (simp add: Move_none_def)
  have m: "(21, REFUTATION) \<in> set (run ex_X [False, False, False, False, False, False] ex_main)"
    unfolding r by simp
  note t = refutations_filtered [OF h1 h2 h3, of "[False, False, False, False, False, False]"
      ex_s0 20 1 "\<lambda>c i. 0" "\<lambda>pc sq pt. 0" "\<lambda>i pc sq. 0" "\<lambda>i pc sq. 0" 21
      "\<lambda>i. if i = 0 then 21 else Move_none", folded ex_main_def]
  from bspec [OF t [THEN conjunct1] m] n
  have p: "pseudo_legal ex_pos 21 \<and> \<not> capture_stage ex_pos 21"
    by (simp add: stage_defs)
  from t [THEN conjunct2]
  have c: "count_list (yields (run ex_X [False, False, False, False, False, False] ex_main)) 21
      \<le> 1"
    by (simp add: Move_none_def)
  show ?thesis
    by (intro conjI) (rule y p [THEN conjunct1] p [THEN conjunct2] c)+
qed

text \<open>Both killers and the counter-move equal to 21: the refutation stage returns 21
  twice. The first killer equal to the hash move 20 and the second the capture 10: both
  are returned, 20 by the hash-move stage and 10 by the good-capture stage.\<close>

theorem refutation_yielded_twice:
  "run ex_X [False, False, False, False]
      (MovePicker_main ex_s0 ex_pos 20 1 (\<lambda>c i. 0) (\<lambda>pc sq pt. 0) (\<lambda>i pc sq. 0)
         (\<lambda>i pc sq. 0) 21 (\<lambda>i. 21))
     = [(20, CAPTURE_INIT), (10, GOOD_CAPTURE), (21, REFUTATION), (21, REFUTATION)]
   \<and> count_list (yields (run ex_X [False, False, False, False]
      (MovePicker_main ex_s0 ex_pos 20 1 (\<lambda>c i. 0) (\<lambda>pc sq pt. 0) (\<lambda>i pc sq. 0)
         (\<lambda>i pc sq. 0) 21 (\<lambda>i. 21)))) 21 = 2
   \<and> run ex_X [False, False, False]
      (MovePicker_main ex_s0 ex_pos 20 1 (\<lambda>c i. 0) (\<lambda>pc sq pt. 0) (\<lambda>i pc sq. 0)
         (\<lambda>i pc sq. 0) 21 (\<lambda>i. if i = 0 then 20 else 10))
     = [(20, CAPTURE_INIT), (10, GOOD_CAPTURE), (21, REFUTATION)]
   \<and> capture_stage ex_pos 10"
  by (simp add: eval_defs yields_def)

text \<open>
  C8. The quiet stage writes the generated quiet moves after the bad captures, scores
  them and sorts them: each generated quiet move is in the range, with the value
  \<^verbatim>\<open>mainHistory[us][from_to]\<close> plus the entries for (moved piece, destination) of
  \<^verbatim>\<open>contHistory[0]\<close>, \<^verbatim>\<open>contHistory[1]\<close> and \<^verbatim>\<open>contHistory[3]\<close>, the tables of
  one, two and four plies back; the table \<^verbatim>\<open>contHistory[2]\<close> of three plies back has
  no part in it.
\<close>
theorem quiet_scores:
  assumes "endBadCaptures s = Moves b"
  shows "mset (range_of (moves (quiet_init X s)) b (b + length (generate X QUIETS (pos s))))
     = mset (map (\<lambda>m. \<lparr>move = m,
          value' = mainHistory s (side_to_move (pos s)) (from_to X m)
                   + contHistory X 0 (moved_piece (pos s) m) (to_sq X m)
                   + contHistory X 1 (moved_piece (pos s) m) (to_sq X m)
                   + contHistory X 3 (moved_piece (pos s) m) (to_sq X m)\<rparr>)
                (generate X QUIETS (pos s)))
   \<and> quiet_init (X\<lparr>contHistory := (contHistory X)(2 := h)\<rparr>) s = quiet_init X s"
proof -
  have "score_value X QUIETS s = (\<lambda>m. mainHistory s (side_to_move (pos s)) (from_to X m)
                   + contHistory X 0 (moved_piece (pos s) m) (to_sq X m)
                   + contHistory X 1 (moved_piece (pos s) m) (to_sq X m)
                   + contHistory X 3 (moved_piece (pos s) m) (to_sq X m))"
    by (rule ext) (simp add: score_value_def)
  then show ?thesis
    by (simp add: quiet_init_Moves [OF assms] mset_partial_insertion_sort scored_generated)
qed

theorem quiet_scores_witness:
  "mset (range_of (moves (quiet_init ex_X ex_main)) 0 3)
     = mset [\<lparr>move = 20, value' = 0\<rparr>, \<lparr>move = 21, value' = 0\<rparr>, \<lparr>move = 22, value' = 0\<rparr>]"
proof -
  have "endBadCaptures ex_main = Moves 0"
    by (simp add: ex_main_def ex_s0_def MovePicker_main_def)
  note t = quiet_scores [OF this, of ex_X, THEN conjunct1]
  have g: "generate ex_X QUIETS (pos ex_main) = [20, 21, 22]" by (simp add: ex_X_def)
  have m: "mainHistory ex_main = (\<lambda>c i. 0)" by (simp add: ex_main_def MovePicker_main_def)
  have c: "contHistory ex_X = (\<lambda>i pc sq. 0)" by (simp add: ex_X_def)
  show ?thesis using t unfolding g m c by (simp add: numeral_3_eq_3)
qed

text \<open>
  C9. After the evasions are generated and scored, a capture has the value of the
  captured piece minus the type of the moving piece, a quiet move has its main-history
  entry minus \<^verbatim>\<open>1 << 28\<close>, and the capture's value is the greater, provided that the
  piece values are at least \<open>lo\<close>, the piece types at most \<open>T\<close>, the history
  entries at most \<open>H\<close>, and \<open>H + T < 2 ^ 28 + lo\<close>.
\<close>
theorem evasion_capture_above_quiet:
  assumes "\<forall>pc. lo \<le> PieceValue_MG X pc" and "\<forall>pc. type_of X pc \<le> T"
    and "\<forall>c i. mainHistory s c i \<le> H" and "H + T < 2 ^ 28 + lo"
    and "x \<in> set (range_of (moves (evasion_init X s)) 0 (length (generate X EVASIONS (pos s))))"
    and "y \<in> set (range_of (moves (evasion_init X s)) 0 (length (generate X EVASIONS (pos s))))"
    and "capture (pos s) (move x)" and "\<not> capture (pos s) (move y)"
  shows "value' x = PieceValue_MG X (piece_on (pos s) (to_sq X (move x)))
                    - type_of X (moved_piece (pos s) (move x))
       \<and> value' y = mainHistory s (side_to_move (pos s)) (from_to X (move y)) - 2 ^ 28
       \<and> value' y < value' x"
proof -
  let ?g = "generate X EVASIONS (pos s)"
  have r: "range_of (moves (evasion_init X s)) 0 (length ?g)
      = map (\<lambda>m. \<lparr>move = m, value' = score_value X EVASIONS s m\<rparr>) ?g"
    using scored_generated [of "score_value X EVASIONS s" "moves s" 0 ?g]
    by (simp add: evasion_init_Moves)
  have vx: "value' x = score_value X EVASIONS s (move x)"
    using assms(5) unfolding r by auto
  have vy: "value' y = score_value X EVASIONS s (move y)"
    using assms(6) unfolding r by auto
  have x: "value' x = PieceValue_MG X (piece_on (pos s) (to_sq X (move x)))
                    - type_of X (moved_piece (pos s) (move x))"
    using assms(7) by (simp add: vx score_value_def)
  have y: "value' y = mainHistory s (side_to_move (pos s)) (from_to X (move y)) - 2 ^ 28"
    using assms(8) by (simp add: vy score_value_def)
  have "lo - T \<le> value' x"
    using assms(1,2) unfolding x
    by (meson diff_mono)
  moreover have "value' y \<le> H - 2 ^ 28"
    using assms(3) unfolding y by simp
  ultimately have "value' y < value' x" using assms(4) by linarith
  with x y show ?thesis by simp
qed

theorem evasion_capture_above_quiet_witness:
  "range_of (moves (evasion_init ex_X ex_main)) 0 (length (generate ex_X EVASIONS (pos ex_main)))
     = [\<lparr>move = 10, value' = 299\<rparr>, \<lparr>move = 20, value' = - (2 ^ 28)\<rparr>]
   \<and> value' \<lparr>move = 20, value' = - (2 ^ 28)\<rparr> < value' \<lparr>move = 10, value' = 299\<rparr>"
proof -
  let ?x = "\<lparr>move = 10, value' = 299\<rparr>" and ?y = "\<lparr>move = 20, value' = - (2 ^ 28)\<rparr>"
  have r: "range_of (moves (evasion_init ex_X ex_main)) 0
             (length (generate ex_X EVASIONS (pos ex_main))) = [?x, ?y]"
    by (simp add: eval_defs range_of_def upt_rec)
  have h1: "\<forall>pc. 0 \<le> PieceValue_MG ex_X pc" by (simp add: ex_X_def)
  have h2: "\<forall>pc. type_of ex_X pc \<le> 7" by (simp add: ex_X_def) presburger
  have h3: "\<forall>c i. mainHistory ex_main c i \<le> 0"
    by (simp add: ex_main_def MovePicker_main_def)
  have h4: "(0::int) + 7 < 2 ^ 28 + 0" by simp
  have h5: "?x \<in> set (range_of (moves (evasion_init ex_X ex_main)) 0
             (length (generate ex_X EVASIONS (pos ex_main))))"
    and h6: "?y \<in> set (range_of (moves (evasion_init ex_X ex_main)) 0
             (length (generate ex_X EVASIONS (pos ex_main))))"
    unfolding r by simp_all
  have h7: "capture (pos ex_main) (move ?x)" and h8: "\<not> capture (pos ex_main) (move ?y)"
    by (simp_all add: ex_main_def MovePicker_main_def ex_pos_def)
  from evasion_capture_above_quiet [OF h1 h2 h3 h4 h5 h6 h7 h8]
  have "value' ?y < value' ?x" by blast
  with r show ?thesis by blast
qed

text \<open>
  C6. A ProbCut picker whose hash move is a capture that fails the static-exchange
  threshold (any threshold, 0 among them) starts in \<^verbatim>\<open>PROBCUT_INIT\<close>, so the hash-move stage
  is skipped, and no call ever returns the hash move. If some generated capture meets the
  threshold, the first call returns a generated capture that meets it and whose score
  (\<^verbatim>\<open>PieceValue[MG][piece_on(to)] - 200 * relative_rank(to)\<close>) is greatest among the generated
  captures that meet it; otherwise the first call returns \<^verbatim>\<open>Move::none()\<close>. The scores are
  taken to fit a C++ \<^verbatim>\<open>int\<close>, that is to be at least \<^verbatim>\<open>INT_MIN\<close>, the limit given to the sort.
\<close>
theorem probcut_failing_hash_move:
  assumes "ttm \<noteq> Move_none" and "capture_stage p ttm" and "\<not> see_ge p ttm th"
    and "\<forall>c\<in>set (generate X CAPTURES p). INT_MIN \<le> capture_value X p c"
  shows "stage (MovePicker_probcut s0 p ttm th cph) = PROBCUT_INIT
    \<and> (\<forall>bs. ttm \<notin> fst ` set (run X bs (MovePicker_probcut s0 p ttm th cph)))
    \<and> (if \<exists>c\<in>set (generate X CAPTURES p). see_ge p c th
       then fst (next_move X b (MovePicker_probcut s0 p ttm th cph)) \<in> set (generate X CAPTURES p)
         \<and> see_ge p (fst (next_move X b (MovePicker_probcut s0 p ttm th cph))) th
         \<and> (\<forall>c\<in>set (generate X CAPTURES p). see_ge p c th \<longrightarrow>
              capture_value X p c
                \<le> capture_value X p (fst (next_move X b (MovePicker_probcut s0 p ttm th cph))))
       else fst (next_move X b (MovePicker_probcut s0 p ttm th cph)) = Move_none)"
proof -
  let ?s = "MovePicker_probcut s0 p ttm th cph"
  let ?L = "sorted_captures X ?s"
  let ?P = "\<lambda>x. see_ge p (move x) th"
  let ?m = "fst (next_move X b ?s)"
  note pf = probcut_first [OF refl assms(3), where ?s0.0 = s0 and cph = cph]
  have st: "stage ?s = PROBCUT_INIT" by (rule pf(1))
  have ntt: "\<not> is_tt_stage (stage ?s)" unfolding st by (simp add: is_tt_stage_def stage_defs)
  have never: "ttm \<notin> fst ` set (run X bs ?s)" for bs
    using run_not_tt [OF ntt, of _ _ X bs] assms(1) by fastforce
  have pend: "pending SeeGeThreshold (capture_init X ?s) = map move (filter ?P ?L)"
    by (rule pf(2))
  have gen: "set (map move ?L) = set (generate X CAPTURES p)"
    by (simp only: set_moves_sorted_captures pos_constructors)
  have gen1: "\<exists>x\<in>set ?L. move x = c" if "c \<in> set (generate X CAPTURES p)" for c
    using that unfolding gen [symmetric] by auto
  have gen2: "move x \<in> set (generate X CAPTURES p)" if "x \<in> set ?L" for x
    using that unfolding gen [symmetric] by simp
  have desc: "descending ?L"
    by (rule descending_sorted_captures) (simp add: assms(4))
  have val: "value' x = capture_value X p (move x)" if "x \<in> set ?L" for x
    using value_sorted_captures [OF that] by simp
  show ?thesis
  proof (cases "\<exists>c\<in>set (generate X CAPTURES p). see_ge p c th")
    case True
    then obtain c where c: "c \<in> set (generate X CAPTURES p)" "see_ge p c th" by blast
    then obtain x where x: "x \<in> set ?L" "move x = c" using gen1 by blast
    then have ne: "filter ?P ?L \<noteq> []" using c(2) by (auto simp: filter_empty_conv)
    then obtain x0 rest where fl: "filter ?P ?L = x0 # rest" by (cases "filter ?P ?L") auto
    have "x0 \<in> set (filter ?P ?L)" unfolding fl by simp
    then have x0: "x0 \<in> set ?L" "see_ge p (move x0) th" by auto
    have m: "?m = move x0" using pf(4) [of X b] unfolding pend fl by simp
    have in_gen: "move x0 \<in> set (generate X CAPTURES p)" using x0(1) by (rule gen2)
    have best: "capture_value X p c' \<le> capture_value X p (move x0)"
      if "c' \<in> set (generate X CAPTURES p)" "see_ge p c' th" for c'
    proof -
      from that(1) obtain y where y: "y \<in> set ?L" "move y = c'" using gen1 by blast
      have "value' y \<le> value' x0"
        using desc fl y(1) by (rule descending_filter_hd) (simp add: y(2) that(2))
      then show ?thesis using val [OF y(1)] val [OF x0(1)] y(2) by simp
    qed
    show ?thesis using True st never in_gen x0(2) best unfolding m by simp
  next
    case False
    then have "filter ?P ?L = []" using gen2 by (auto simp: filter_empty_conv)
    then have "?m = Move_none" using pf(3) [of X b] unfolding pend by simp
    then show ?thesis using False st never by simp
  qed
qed

theorem probcut_failing_hash_move_witness:
  "stage (MovePicker_probcut ex_s0 ex_pos 11 0 (\<lambda>pc sq pt. 0)) = PROBCUT_INIT
   \<and> fst (next_move ex_X False (MovePicker_probcut ex_s0 ex_pos 11 0 (\<lambda>pc sq pt. 0))) = 10
   \<and> see_ge ex_pos 10 0"
proof -
  have h: "11 \<noteq> Move_none" "capture_stage ex_pos 11" "\<not> see_ge ex_pos 11 0"
    "\<forall>c\<in>set (generate ex_X CAPTURES ex_pos). INT_MIN \<le> capture_value ex_X ex_pos c"
    by (simp_all add: Move_none_def ex_pos_def ex_X_def capture_value_def INT_MIN_def)
  have g: "set (generate ex_X CAPTURES ex_pos) = {10, 11}" by (auto simp: ex_X_def)
  have e: "\<exists>c\<in>set (generate ex_X CAPTURES ex_pos). see_ge ex_pos c 0"
    by (simp add: ex_X_def ex_pos_def)
  from probcut_failing_hash_move [OF h, where ?s0.0 = ex_s0 and cph = "\<lambda>pc sq pt. 0" and b = False]
  have "stage (MovePicker_probcut ex_s0 ex_pos 11 0 (\<lambda>pc sq pt. 0)) = PROBCUT_INIT"
    and "fst (next_move ex_X False (MovePicker_probcut ex_s0 ex_pos 11 0 (\<lambda>pc sq pt. 0)))
        \<in> {10, 11}"
    and "see_ge ex_pos
        (fst (next_move ex_X False (MovePicker_probcut ex_s0 ex_pos 11 0 (\<lambda>pc sq pt. 0)))) 0"
    using e unfolding g by simp_all
  then show ?thesis by (auto simp: ex_pos_def)
qed

text \<open>
  C7. Main search, side to move not in check (the main stage sequence), the generator
  never producing \<^verbatim>\<open>Move::none()\<close>, and \<^verbatim>\<open>next_move\<close> called until it has returned
  \<^verbatim>\<open>Move::none()\<close>. The moves returned in the good-capture stage are, in the order of the
  sorted captures, those that are not the hash move and pass
  \<^verbatim>\<open>see_ge(m, -value / 18)\<close>; the moves returned in the bad-capture stage are, in the same
  order and with no further test, exactly those that are not the hash move and fail it,
  which are the ones the good-capture scan copied to the bad-capture range. Together the
  two are the generated captures without the hash move.
\<close>
theorem captures_good_and_bad:
  assumes "\<not> checkers p" and "Move_none \<notin> set (generate X CAPTURES p)"
    and "Move_none \<in> fst ` set (run X bs (MovePicker_main s0 p ttm d mh cph ch ph cm killers))"
  shows "yields_at GOOD_CAPTURE (run X bs (MovePicker_main s0 p ttm d mh cph ch ph cm killers))
       = map move (filter (\<lambda>x. move x \<noteq> ttm \<and> see_ge p (move x) (trunc_div (- value' x) 18))
           (sorted_captures X (MovePicker_main s0 p ttm d mh cph ch ph cm killers)))
     \<and> yields_at BAD_CAPTURE (run X bs (MovePicker_main s0 p ttm d mh cph ch ph cm killers))
       = map move (filter (\<lambda>x. move x \<noteq> ttm \<and> \<not> see_ge p (move x) (trunc_div (- value' x) 18))
           (sorted_captures X (MovePicker_main s0 p ttm d mh cph ch ph cm killers)))
     \<and> set (yields_at GOOD_CAPTURE (run X bs (MovePicker_main s0 p ttm d mh cph ch ph cm killers)))
       \<union> set (yields_at BAD_CAPTURE (run X bs (MovePicker_main s0 p ttm d mh cph ch ph cm killers)))
       = set (generate X CAPTURES p) - {ttm}"
proof -
  let ?s = "MovePicker_main s0 p ttm d mh cph ch ph cm killers"
  let ?L = "sorted_captures X ?s"
  note st = stage_main_not_in_check [OF assms(1), of s0 ttm d mh cph ch ph cm killers]
  have nn: "Move_none \<notin> set (generate X CAPTURES (pos ?s))" using assms(2) by simp
  have tt: "stage ?s = MAIN_TT \<longrightarrow> ttMove ?s \<noteq> Move_none" using st by simp
  from main_from_start(1) [OF st [THEN conjunct1] nn tt, of bs] assms(3)
  have g: "yields_at GOOD_CAPTURE (run X bs ?s) = map move (filter (picks GoodCapture ?s) ?L)"
    and b: "yields_at BAD_CAPTURE (run X bs ?s) = map move (filter (rejected ?s) ?L)"
    by auto
  have pk: "picks GoodCapture ?s
      = (\<lambda>x. move x \<noteq> ttm \<and> see_ge p (move x) (trunc_div (- value' x) 18))"
    by (rule ext) (simp add: picks_def)
  have rj: "rejected ?s
      = (\<lambda>x. move x \<noteq> ttm \<and> \<not> see_ge p (move x) (trunc_div (- value' x) 18))"
    by (rule ext) (simp add: rejected_def)
  have "set (map move (filter (picks GoodCapture ?s) ?L)) \<union> set (map move (filter (rejected ?s) ?L))
      = set (map move ?L) - {ttm}"
    unfolding pk rj by auto
  then have u: "set (yields_at GOOD_CAPTURE (run X bs ?s)) \<union> set (yields_at BAD_CAPTURE (run X bs ?s))
      = set (generate X CAPTURES p) - {ttm}"
    unfolding g b set_moves_sorted_captures by simp
  show ?thesis using g b u unfolding pk rj by simp
qed

theorem captures_good_and_bad_witness:
  "\<not> checkers ex_pos
   \<and> Move_none \<in> fst ` set (run ex_X [False, False, False, False, False, False] ex_main)
   \<and> yields_at GOOD_CAPTURE (run ex_X [False, False, False, False, False, False] ex_main) = [10]
   \<and> yields_at BAD_CAPTURE (run ex_X [False, False, False, False, False, False] ex_main) = [11]
   \<and> set (yields_at GOOD_CAPTURE (run ex_X [False, False, False, False, False, False] ex_main))
     \<union> set (yields_at BAD_CAPTURE (run ex_X [False, False, False, False, False, False] ex_main))
     = set (generate ex_X CAPTURES ex_pos) - {20}"
proof -
  have h1: "\<not> checkers ex_pos" by (simp add: ex_pos_def)
  have h2: "Move_none \<notin> set (generate ex_X CAPTURES ex_pos)"
    by (simp add: ex_X_def Move_none_def)
  have r: "run ex_X [False, False, False, False, False, False] ex_main
      = [(20, CAPTURE_INIT), (10, GOOD_CAPTURE), (21, REFUTATION), (22, GOOD_QUIET),
         (11, BAD_CAPTURE), (Move_none, BAD_QUIET)]"
    by (simp add: eval_defs)
  have h3: "Move_none \<in> fst ` set (run ex_X [False, False, False, False, False, False] ex_main)"
    unfolding r by simp
  have y1: "yields_at GOOD_CAPTURE (run ex_X [False, False, False, False, False, False] ex_main)
        = [10]"
    unfolding r by (simp add: yields_at_def stage_defs Move_none_def)
  have y2: "yields_at BAD_CAPTURE (run ex_X [False, False, False, False, False, False] ex_main)
        = [11]"
    unfolding r by (simp add: yields_at_def stage_defs Move_none_def)
  note t = captures_good_and_bad [OF h1 h2 h3 [unfolded ex_main_def], folded ex_main_def]
  show ?thesis
    by (intro conjI) (rule h1 h3 y1 y2 t [THEN conjunct2, THEN conjunct2])+
qed

text \<open>
  C10. The picker stores the capture-history and the pawn-history tables and never
  reads them: pickers constructed with different tables return the same moves, in the
  same stages, for every sequence of calls. (The ProbCut constructor takes no pawn
  history; the member then holds what the storage held.)
\<close>
theorem unread_histories:
  "run X bs (MovePicker_main s0 p ttm d mh cph' ch ph' cm killers)
     = run X bs (MovePicker_main s0 p ttm d mh cph ch ph cm killers)
   \<and> run X bs (MovePicker_qsearch s0 p ttm d mh cph' ch ph')
     = run X bs (MovePicker_qsearch s0 p ttm d mh cph ch ph)
   \<and> run X bs (MovePicker_probcut (s0\<lparr>pawnHistory := ph'\<rparr>) p ttm th cph')
     = run X bs (MovePicker_probcut s0 p ttm th cph)"
  by (simp add: wh_constructors(1) [where cph = cph and ph = ph and cph' = cph' and ph' = ph']
      wh_constructors(2) [where cph = cph and ph = ph and cph' = cph' and ph' = ph']
      wh_constructors(3) [where cph = cph and cph' = cph' and ph' = ph'] wh_run)

end
